theory Spec2Isabelle
  imports Main "HOL-Library.Word" "HOL-Library.Char_ord" "HOL-Library.List_Lexorder"
    "HOL-Library.Product_Lexorder" "HOL-Library.AList"
begin

unbundle bit_operations_syntax

section \<open>An LSM tree over sorted string tables: the embedding of lsm.py\<close>

text \<open>
  The development follows \<^verbatim>\<open>lsm.py\<close> class by class: \<^verbatim>\<open>BloomFilter\<close>, \<^verbatim>\<open>SSTable\<close> and
  \<^verbatim>\<open>LSMTree\<close>. Conventions of the embedding:

  \<^item> A Python \<^verbatim>\<open>str\<close> is a \<^typ>\<open>string\<close>, read as the sequence of its UTF-8 bytes, so
    \<^verbatim>\<open>encode\<close> and \<^verbatim>\<open>decode\<close> map byte for byte and \<^verbatim>\<open>len(key.encode())\<close> is the length of
    the list. The order on strings is the lexicographic order on bytes, which is
    Python's order on code points. (\<^verbatim>\<open>decode\<close> of bytes that are not UTF-8 raises in
    Python; that case only arises on files the program did not write and is left out.)
  \<^item> Python's built-in \<^verbatim>\<open>hash\<close> is a parameter \<open>h\<close> of type \<^typ>\<open>string \<Rightarrow> int\<close>: it is
    fixed within one process and nothing else is known about it.
  \<^item> The working directory is a map from file names to file contents; every function
    that touches a file takes the map and, when it writes, returns the new one.
  \<^item> An exception is a value \<open>Inl\<close>. Functions that mutate state return the state at
    the raise together with the exception.
  \<^item> \<^verbatim>\<open>struct\<close> uses the native layout of a little-endian machine: \<^verbatim>\<open>'I'\<close> is four bytes,
    \<^verbatim>\<open>'Q'\<close> eight, least significant byte first. File offsets are assumed to fit the
    platform's signed 64-bit offset type, so a seek to a position that is not negative
    does not fail.
\<close>

type_synonym byte = "8 word"

type_synonym filesystem = "string \<Rightarrow> byte list option"

datatype error = StructError | FileNotFoundError | OSError | IndexError | ZeroDivisionError

subsection \<open>struct, str and the codecs\<close>

primrec le_bytes :: "nat \<Rightarrow> nat \<Rightarrow> byte list" where
  "le_bytes 0 n = []"
| "le_bytes (Suc k) n = word_of_nat n # le_bytes k (n div 256)"

primrec le_nat :: "byte list \<Rightarrow> nat" where
  "le_nat [] = 0"
| "le_nat (b # bs) = unat b + 256 * le_nat bs"

definition pack_I :: "nat \<Rightarrow> error + byte list" where
  "pack_I n = (if n < 2 ^ 32 then Inr (le_bytes 4 n) else Inl StructError)"

definition pack_Q :: "nat \<Rightarrow> error + byte list" where
  "pack_Q n = (if n < 2 ^ 64 then Inr (le_bytes 8 n) else Inl StructError)"

definition unpack_I :: "byte list \<Rightarrow> error + nat" where
  "unpack_I bs = (if length bs = 4 then Inr (le_nat bs) else Inl StructError)"

definition unpack_Q :: "byte list \<Rightarrow> error + nat" where
  "unpack_Q bs = (if length bs = 8 then Inr (le_nat bs) else Inl StructError)"

definition encode :: "string \<Rightarrow> byte list" where
  "encode s = map (\<lambda>c. word_of_nat (of_char c)) s"

definition decode :: "byte list \<Rightarrow> string" where
  "decode bs = map (\<lambda>b. char_of (unat b)) bs"

definition digit_char :: "nat \<Rightarrow> char" where
  "digit_char d = char_of (48 + d)"

fun str_nat :: "nat \<Rightarrow> string" where
  "str_nat n = (if n < 10 then [digit_char n] else str_nat (n div 10) @ [digit_char (n mod 10)])"

declare str_nat.simps [simp del]

subsection \<open>bisect\<close>

text \<open>The two binary searches of Python's \<^verbatim>\<open>bisect\<close> module, with \<^verbatim>\<open>lo = 0\<close> and
  \<^verbatim>\<open>hi = len(a)\<close>.\<close>

function bisect_left_loop :: "'a::linorder list \<Rightarrow> 'a \<Rightarrow> nat \<Rightarrow> nat \<Rightarrow> nat" where
  "bisect_left_loop a x lo hi =
     (if lo < hi then
        (if a ! ((lo + hi) div 2) < x then bisect_left_loop a x ((lo + hi) div 2 + 1) hi
         else bisect_left_loop a x lo ((lo + hi) div 2))
      else lo)"
  by pat_completeness auto
termination
  by (relation "measure (\<lambda>(a, x, lo, hi). hi - lo)") auto

function bisect_right_loop :: "'a::linorder list \<Rightarrow> 'a \<Rightarrow> nat \<Rightarrow> nat \<Rightarrow> nat" where
  "bisect_right_loop a x lo hi =
     (if lo < hi then
        (if x < a ! ((lo + hi) div 2) then bisect_right_loop a x lo ((lo + hi) div 2)
         else bisect_right_loop a x ((lo + hi) div 2 + 1) hi)
      else lo)"
  by pat_completeness auto
termination
  by (relation "measure (\<lambda>(a, x, lo, hi). hi - lo)") auto

declare bisect_left_loop.simps [simp del] bisect_right_loop.simps [simp del]

definition bisect_left :: "'a::linorder list \<Rightarrow> 'a \<Rightarrow> nat" where
  "bisect_left a x = bisect_left_loop a x 0 (length a)"

definition bisect_right :: "'a::linorder list \<Rightarrow> 'a \<Rightarrow> nat" where
  "bisect_right a x = bisect_right_loop a x 0 (length a)"

subsection \<open>BloomFilter\<close>

record BloomFilter =
  size_bf :: nat
  num_hashes :: nat
  bits :: "byte list"

text \<open>\<^verbatim>\<open>BloomFilter()\<close>: 8192 bits in \<^verbatim>\<open>bytearray((size + 7) // 8)\<close>, four hashes.\<close>

definition BloomFilter_init :: BloomFilter where
  "BloomFilter_init = \<lparr>size_bf = 8192, num_hashes = 4, bits = replicate ((8192 + 7) div 8) 0\<rparr>"

text \<open>\<^verbatim>\<open>hash(key + str(seed)) % self.size\<close>: Python's \<^verbatim>\<open>%\<close> with a positive modulus is
  never negative; a zero modulus raises.\<close>

definition BloomFilter_hash :: "(string \<Rightarrow> int) \<Rightarrow> BloomFilter \<Rightarrow> string \<Rightarrow> nat \<Rightarrow> error + nat" where
  "BloomFilter_hash h bf key seed =
     (if size_bf bf = 0 then Inl ZeroDivisionError
      else Inr (nat (h (key @ str_nat seed) mod int (size_bf bf))))"

fun add_loop :: "(string \<Rightarrow> int) \<Rightarrow> string \<Rightarrow> nat list \<Rightarrow> BloomFilter \<Rightarrow> error + BloomFilter" where
  "add_loop h key [] bf = Inr bf"
| "add_loop h key (i # rest) bf =
     (case BloomFilter_hash h bf key i of
        Inl e \<Rightarrow> Inl e
      | Inr pos \<Rightarrow>
          if pos div 8 < length (bits bf) then
            add_loop h key rest
              (bf\<lparr>bits := (bits bf)[pos div 8 := (bits bf ! (pos div 8)) OR push_bit (pos mod 8) 1]\<rparr>)
          else Inl IndexError)"

definition BloomFilter_add :: "(string \<Rightarrow> int) \<Rightarrow> BloomFilter \<Rightarrow> string \<Rightarrow> error + BloomFilter" where
  "BloomFilter_add h bf key = add_loop h key [0..<num_hashes bf] bf"

fun might_contain_loop :: "(string \<Rightarrow> int) \<Rightarrow> BloomFilter \<Rightarrow> string \<Rightarrow> nat list \<Rightarrow> error + bool" where
  "might_contain_loop h bf key [] = Inr True"
| "might_contain_loop h bf key (i # rest) =
     (case BloomFilter_hash h bf key i of
        Inl e \<Rightarrow> Inl e
      | Inr pos \<Rightarrow>
          if pos div 8 < length (bits bf) then
            (if (bits bf ! (pos div 8)) AND push_bit (pos mod 8) 1 = 0 then Inr False
             else might_contain_loop h bf key rest)
          else Inl IndexError)"

definition BloomFilter_might_contain :: "(string \<Rightarrow> int) \<Rightarrow> BloomFilter \<Rightarrow> string \<Rightarrow> error + bool" where
  "BloomFilter_might_contain h bf key = might_contain_loop h bf key [0..<num_hashes bf]"

definition BloomFilter_serialize :: "BloomFilter \<Rightarrow> error + byte list" where
  "BloomFilter_serialize bf =
     (case pack_I (size_bf bf) of
        Inl e \<Rightarrow> Inl e
      | Inr s \<Rightarrow> (case pack_I (num_hashes bf) of Inl e \<Rightarrow> Inl e | Inr k \<Rightarrow> Inr (s @ k @ bits bf)))"

definition BloomFilter_deserialize :: "byte list \<Rightarrow> error + BloomFilter" where
  "BloomFilter_deserialize data =
     (if length (take 8 data) = 8 then
        Inr \<lparr>size_bf = le_nat (take 4 data), num_hashes = le_nat (take 4 (drop 4 data)),
             bits = drop 8 data\<rparr>
      else Inl StructError)"

subsection \<open>SSTable\<close>

record SSTable =
  filename :: string
  index :: "(string \<times> nat) list"
  bloom :: "BloomFilter option"

text \<open>The first loop of \<^verbatim>\<open>_build\<close>: the file opened with \<^verbatim>\<open>'wb'\<close> starts empty, \<^verbatim>\<open>f.tell()\<close> is
  the number of bytes written so far. \<^verbatim>\<open>struct.pack('I', n)\<close> raises when \<open>n\<close> does not fit
  32 bits; the bytes written before the raise stay in the file.\<close>

fun write_records ::
  "(string \<Rightarrow> int) \<Rightarrow> (string \<times> string) list \<Rightarrow> BloomFilter \<Rightarrow> nat list \<Rightarrow> byte list
     \<Rightarrow> (error \<times> byte list) + (BloomFilter \<times> nat list \<times> byte list)" where
  "write_records h [] bf offsets f = Inr (bf, offsets, f)"
| "write_records h ((key, value) # rest) bf offsets f =
     (case BloomFilter_add h bf key of
        Inl e \<Rightarrow> Inl (e, f)
      | Inr bf' \<Rightarrow>
          (case pack_I (length (encode key)) of
             Inl e \<Rightarrow> Inl (e, f)
           | Inr kl \<Rightarrow>
               (case pack_I (length (encode value)) of
                  Inl e \<Rightarrow> Inl (e, f)
                | Inr vl \<Rightarrow>
                    write_records h rest bf' (offsets @ [length f])
                      (f @ kl @ encode key @ vl @ encode value))))"

text \<open>The third block of \<^verbatim>\<open>_build\<close>: \<^verbatim>\<open>index_data\<close> is assembled in memory, and only then
  written.\<close>

fun index_entries :: "(string \<times> nat) list \<Rightarrow> byte list \<Rightarrow> error + byte list" where
  "index_entries [] index_data = Inr index_data"
| "index_entries ((key, offset) # rest) index_data =
     (case pack_I (length (encode key)) of
        Inl e \<Rightarrow> Inl e
      | Inr kl \<Rightarrow>
          (case pack_Q offset of
             Inl e \<Rightarrow> Inl e
           | Inr off \<Rightarrow> index_entries rest (index_data @ kl @ encode key @ off)))"

definition SSTable_build ::
  "(string \<Rightarrow> int) \<Rightarrow> filesystem \<Rightarrow> string \<Rightarrow> (string \<times> string) list
     \<Rightarrow> (error \<times> filesystem) + (SSTable \<times> filesystem)" where
  "SSTable_build h fs fname data =
     (let data_sorted = sort_key fst data in
      case write_records h data_sorted BloomFilter_init [] [] of
        Inl (e, f) \<Rightarrow> Inl (e, fs(fname \<mapsto> f))
      | Inr (bf, offsets, f) \<Rightarrow>
          (let idx = zip (map fst data_sorted) offsets in
           case pack_I (length idx) of
             Inl e \<Rightarrow> Inl (e, fs(fname \<mapsto> f))
           | Inr cnt \<Rightarrow>
               (case index_entries idx cnt of
                  Inl e \<Rightarrow> Inl (e, fs(fname \<mapsto> f))
                | Inr index_data \<Rightarrow>
                    (case pack_I (length index_data) of
                       Inl e \<Rightarrow> Inl (e, fs(fname \<mapsto> f @ index_data))
                     | Inr sz \<Rightarrow>
                         (case BloomFilter_serialize bf of
                            Inl e \<Rightarrow> Inl (e, fs(fname \<mapsto> f @ index_data @ sz))
                          | Inr bl \<Rightarrow>
                              Inr (\<lparr>filename = fname, index = idx, bloom = Some bf\<rparr>,
                                   fs(fname \<mapsto> f @ index_data @ sz @ bl)))))))"

text \<open>The loop of \<^verbatim>\<open>_load\<close> over \<^verbatim>\<open>range(count)\<close>, reading at position \<open>pos\<close> of the file
  (the second argument counts the rounds left). A read at the end of the file returns
  fewer bytes than asked for, and \<^verbatim>\<open>struct.unpack\<close> raises on them.\<close>

primrec load_entries ::
  "byte list \<Rightarrow> nat \<Rightarrow> nat \<Rightarrow> (string \<times> nat) list \<Rightarrow> error + ((string \<times> nat) list \<times> nat)" where
  "load_entries f 0 pos idx = Inr (idx, pos)"
| "load_entries f (Suc n) pos idx =
     (case unpack_I (take 4 (drop pos f)) of
        Inl e \<Rightarrow> Inl e
      | Inr key_len \<Rightarrow>
          (case unpack_Q (take 8 (drop (pos + 4 + length (take key_len (drop (pos + 4) f))) f)) of
             Inl e \<Rightarrow> Inl e
           | Inr offset \<Rightarrow>
               load_entries f n (pos + 4 + length (take key_len (drop (pos + 4) f)) + 8)
                 (idx @ [(decode (take key_len (drop (pos + 4) f)), offset)])))"

text \<open>\<^verbatim>\<open>_load\<close>: a seek relative to the end that would land before the start of the file
  raises \<^verbatim>\<open>OSError\<close>.\<close>

definition SSTable_load :: "filesystem \<Rightarrow> string \<Rightarrow> error + SSTable" where
  "SSTable_load fs fname =
     (case fs fname of
        None \<Rightarrow> Inr \<lparr>filename = fname, index = [], bloom = None\<rparr>
      | Some f \<Rightarrow>
          if length f < 4 then Inl OSError
          else
            (case unpack_I (take 4 (drop (length f - 4) f)) of
               Inl e \<Rightarrow> Inl e
             | Inr index_size \<Rightarrow>
                 if length f < 4 + index_size then Inl OSError
                 else
                   (case unpack_I (take 4 (drop (length f - 4 - index_size) f)) of
                      Inl e \<Rightarrow> Inl e
                    | Inr count \<Rightarrow>
                        (case load_entries f count (length f - 4 - index_size + 4) [] of
                           Inl e \<Rightarrow> Inl e
                         | Inr (idx, pos) \<Rightarrow>
                             (let bloom_data = drop pos f in
                              if 8 \<le> length bloom_data then
                                (case BloomFilter_deserialize bloom_data of
                                   Inl e \<Rightarrow> Inl e
                                 | Inr bf \<Rightarrow> Inr \<lparr>filename = fname, index = idx, bloom = Some bf\<rparr>)
                              else Inr \<lparr>filename = fname, index = idx, bloom = None\<rparr>)))))"

text \<open>\<^verbatim>\<open>SSTable(filename, data)\<close>: build when data is given, load otherwise.\<close>

definition SSTable_init ::
  "(string \<Rightarrow> int) \<Rightarrow> filesystem \<Rightarrow> string \<Rightarrow> (string \<times> string) list option
     \<Rightarrow> (error \<times> filesystem) + (SSTable \<times> filesystem)" where
  "SSTable_init h fs fname data =
     (case data of
        Some d \<Rightarrow> SSTable_build h fs fname d
      | None \<Rightarrow> (case SSTable_load fs fname of Inl e \<Rightarrow> Inl (e, fs) | Inr sst \<Rightarrow> Inr (sst, fs)))"

text \<open>The file part of \<^verbatim>\<open>SSTable.get\<close>: seek to the offset, read the key length, skip the
  key, read the value length and the value.\<close>

definition read_value :: "byte list \<Rightarrow> nat \<Rightarrow> error + string" where
  "read_value f offset =
     (case unpack_I (take 4 (drop offset f)) of
        Inl e \<Rightarrow> Inl e
      | Inr key_len \<Rightarrow>
          (case unpack_I (take 4 (drop (offset + 4 + key_len) f)) of
             Inl e \<Rightarrow> Inl e
           | Inr value_len \<Rightarrow> Inr (decode (take value_len (drop (offset + 4 + key_len + 4) f)))))"

definition SSTable_get ::
  "(string \<Rightarrow> int) \<Rightarrow> filesystem \<Rightarrow> SSTable \<Rightarrow> string \<Rightarrow> error + string option" where
  "SSTable_get h fs sst key =
     (case bloom sst of
        None \<Rightarrow> Inr None
      | Some bf \<Rightarrow>
          (case BloomFilter_might_contain h bf key of
             Inl e \<Rightarrow> Inl e
           | Inr False \<Rightarrow> Inr None
           | Inr True \<Rightarrow>
               (let keys = map fst (index sst); pos = bisect_left keys key in
                if length keys \<le> pos then Inr None
                else if keys ! pos = key then
                  (case fs (filename sst) of
                     None \<Rightarrow> Inl FileNotFoundError
                   | Some f \<Rightarrow>
                       (case read_value f (snd (index sst ! pos)) of
                          Inl e \<Rightarrow> Inl e
                        | Inr value \<Rightarrow> Inr (Some value)))
                else Inr None)))"

fun range_loop ::
  "(string \<Rightarrow> int) \<Rightarrow> filesystem \<Rightarrow> SSTable \<Rightarrow> string list \<Rightarrow> (string \<times> string) list
     \<Rightarrow> error + (string \<times> string) list" where
  "range_loop h fs sst [] result = Inr result"
| "range_loop h fs sst (key # rest) result =
     (case SSTable_get h fs sst key of
        Inl e \<Rightarrow> Inl e
      | Inr None \<Rightarrow> range_loop h fs sst rest result
      | Inr (Some value) \<Rightarrow> range_loop h fs sst rest (result @ [(key, value)]))"

text \<open>\<^verbatim>\<open>SSTable.range\<close>: the loop runs over \<^verbatim>\<open>keys[i]\<close> for \<^verbatim>\<open>i\<close> in
  \<^verbatim>\<open>range(left, right)\<close>; both bounds are at most \<^verbatim>\<open>len(keys)\<close>.\<close>

definition SSTable_range ::
  "(string \<Rightarrow> int) \<Rightarrow> filesystem \<Rightarrow> SSTable \<Rightarrow> string \<Rightarrow> string
     \<Rightarrow> error + (string \<times> string) list" where
  "SSTable_range h fs sst start end =
     (let keys = map fst (index sst);
          left = bisect_left keys start;
          right = bisect_right keys end
      in range_loop h fs sst (map (\<lambda>i. keys ! i) [left..<right]) [])"

definition SSTable_size_bytes :: "filesystem \<Rightarrow> SSTable \<Rightarrow> nat" where
  "SSTable_size_bytes fs sst = (case fs (filename sst) of Some f \<Rightarrow> length f | None \<Rightarrow> 0)"

definition SSTable_cleanup :: "SSTable \<Rightarrow> filesystem \<Rightarrow> filesystem" where
  "SSTable_cleanup sst fs = (case fs (filename sst) of Some f \<Rightarrow> fs(filename sst := None) | None \<Rightarrow> fs)"

subsection \<open>LSMTree\<close>

text \<open>The memtable is a Python \<^verbatim>\<open>dict\<close>: an association list in insertion order, where an
  assignment to a key already present replaces the value in place.\<close>

record LSMTree =
  memtable :: "(string \<times> string) list"
  memtable_limit :: int
  levels :: "SSTable list list"

definition LSMTree_init :: "int \<Rightarrow> LSMTree" where
  "LSMTree_init limit = \<lparr>memtable = [], memtable_limit = limit, levels = []\<rparr>"

text \<open>The two gathering loops of \<^verbatim>\<open>_compact_level\<close>: every table of a level is scanned with
  \<^verbatim>\<open>sst.range("", "~")\<close> and each pair is assigned into \<^verbatim>\<open>merged\<close>.\<close>

fun merge_tables ::
  "(string \<Rightarrow> int) \<Rightarrow> filesystem \<Rightarrow> SSTable list \<Rightarrow> (string \<times> string) list
     \<Rightarrow> error + (string \<times> string) list" where
  "merge_tables h fs [] merged = Inr merged"
| "merge_tables h fs (sst # rest) merged =
     (case SSTable_range h fs sst [] ''~'' of
        Inl e \<Rightarrow> Inl e
      | Inr kvs \<Rightarrow> merge_tables h fs rest (fold (\<lambda>(k, v) m. AList.update k v m) kvs merged))"

definition LSMTree_compact_level ::
  "(string \<Rightarrow> int) \<Rightarrow> filesystem \<Rightarrow> LSMTree \<Rightarrow> nat
     \<Rightarrow> (error \<times> LSMTree \<times> filesystem) + (LSMTree \<times> filesystem)" where
  "LSMTree_compact_level h fs t level =
     (if length (levels t) \<le> level then Inr (t, fs)
      else if levels t ! level = [] then Inr (t, fs)
      else
        (case merge_tables h fs (levels t ! level) [] of
           Inl e \<Rightarrow> Inl (e, t, fs)
         | Inr merged0 \<Rightarrow>
             (case (if level + 1 < length (levels t)
                    then merge_tables h fs (levels t ! (level + 1)) merged0
                    else Inr merged0) of
                Inl e \<Rightarrow> Inl (e, t, fs)
              | Inr merged \<Rightarrow>
                  (let lv1 = (if length (levels t) \<le> level + 1 then levels t @ [[]] else levels t);
                       fs1 = fold SSTable_cleanup (lv1 ! (level + 1)) fs;
                       lv2 = lv1[level + 1 := []]
                   in case SSTable_init h fs1 (''l'' @ str_nat (level + 1) @ ''_0.sst'') (Some merged) of
                        Inl (e, fs2) \<Rightarrow> Inl (e, t\<lparr>levels := lv2\<rparr>, fs2)
                      | Inr (sst, fs2) \<Rightarrow>
                          (let lv3 = lv2[level + 1 := [sst]];
                               fs3 = fold SSTable_cleanup (lv3 ! level) fs2
                           in Inr (t\<lparr>levels := lv3[level := []]\<rparr>, fs3))))))"

definition LSMTree_flush_memtable ::
  "(string \<Rightarrow> int) \<Rightarrow> filesystem \<Rightarrow> LSMTree
     \<Rightarrow> (error \<times> LSMTree \<times> filesystem) + (LSMTree \<times> filesystem)" where
  "LSMTree_flush_memtable h fs t =
     (if memtable t = [] then Inr (t, fs)
      else
        (let lv = (if levels t = [] then [[]] else levels t);
             t1 = t\<lparr>levels := lv\<rparr>
         in case SSTable_init h fs (''l0_'' @ str_nat (length (hd lv)) @ ''.sst'') (Some (memtable t)) of
              Inl (e, fs') \<Rightarrow> Inl (e, t1, fs')
            | Inr (sst, fs') \<Rightarrow>
                (let t2 = t1\<lparr>levels := (hd lv @ [sst]) # tl lv, memtable := []\<rparr>
                 in if 2 < length (hd (levels t2)) then LSMTree_compact_level h fs' t2 0
                    else Inr (t2, fs'))))"

definition LSMTree_put ::
  "(string \<Rightarrow> int) \<Rightarrow> filesystem \<Rightarrow> LSMTree \<Rightarrow> string \<Rightarrow> string
     \<Rightarrow> (error \<times> LSMTree \<times> filesystem) + (LSMTree \<times> filesystem)" where
  "LSMTree_put h fs t key value =
     (let t1 = t\<lparr>memtable := AList.update key value (memtable t)\<rparr>
      in if memtable_limit t1 \<le> int (length (memtable t1)) then LSMTree_flush_memtable h fs t1
         else Inr (t1, fs))"

text \<open>The inner loop of \<^verbatim>\<open>LSMTree.get\<close> over the tables of one level, in list order, and the
  outer loop over the levels from the last one down to level 0.\<close>

fun get_in_level ::
  "(string \<Rightarrow> int) \<Rightarrow> filesystem \<Rightarrow> SSTable list \<Rightarrow> string \<Rightarrow> error + string option" where
  "get_in_level h fs [] key = Inr None"
| "get_in_level h fs (sst # rest) key =
     (case SSTable_get h fs sst key of
        Inl e \<Rightarrow> Inl e
      | Inr (Some val) \<Rightarrow> Inr (Some val)
      | Inr None \<Rightarrow> get_in_level h fs rest key)"

fun get_in_levels ::
  "(string \<Rightarrow> int) \<Rightarrow> filesystem \<Rightarrow> SSTable list list \<Rightarrow> string \<Rightarrow> error + string option" where
  "get_in_levels h fs [] key = Inr None"
| "get_in_levels h fs (level # rest) key =
     (case get_in_level h fs level key of
        Inl e \<Rightarrow> Inl e
      | Inr (Some val) \<Rightarrow> Inr (Some val)
      | Inr None \<Rightarrow> get_in_levels h fs rest key)"

definition LSMTree_get ::
  "(string \<Rightarrow> int) \<Rightarrow> filesystem \<Rightarrow> LSMTree \<Rightarrow> string \<Rightarrow> error + string option" where
  "LSMTree_get h fs t key =
     (case map_of (memtable t) key of
        Some v \<Rightarrow> Inr (Some v)
      | None \<Rightarrow> get_in_levels h fs (rev (levels t)) key)"

text \<open>\<^verbatim>\<open>LSMTree.range\<close>: the memtable's pairs within the bounds go into \<^verbatim>\<open>result\<close> first, then
  the pairs of every table, level by level from the last one down to level 0, each
  assignment replacing what \<^verbatim>\<open>result\<close> held for the key.\<close>

fun range_in_level ::
  "(string \<Rightarrow> int) \<Rightarrow> filesystem \<Rightarrow> SSTable list \<Rightarrow> string \<Rightarrow> string \<Rightarrow> (string \<times> string) list
     \<Rightarrow> error + (string \<times> string) list" where
  "range_in_level h fs [] start end result = Inr result"
| "range_in_level h fs (sst # rest) start end result =
     (case SSTable_range h fs sst start end of
        Inl e \<Rightarrow> Inl e
      | Inr kvs \<Rightarrow>
          range_in_level h fs rest start end (fold (\<lambda>(k, v) m. AList.update k v m) kvs result))"

fun range_in_levels ::
  "(string \<Rightarrow> int) \<Rightarrow> filesystem \<Rightarrow> SSTable list list \<Rightarrow> string \<Rightarrow> string \<Rightarrow> (string \<times> string) list
     \<Rightarrow> error + (string \<times> string) list" where
  "range_in_levels h fs [] start end result = Inr result"
| "range_in_levels h fs (level # rest) start end result =
     (case range_in_level h fs level start end result of
        Inl e \<Rightarrow> Inl e
      | Inr result' \<Rightarrow> range_in_levels h fs rest start end result')"

definition LSMTree_range ::
  "(string \<Rightarrow> int) \<Rightarrow> filesystem \<Rightarrow> LSMTree \<Rightarrow> string \<Rightarrow> string
     \<Rightarrow> error + (string \<times> string) list" where
  "LSMTree_range h fs t start end =
     (let result0 =
            fold (\<lambda>(k, v) m. if start \<le> k \<and> k \<le> end then AList.update k v m else m)
              (memtable t) []
      in case range_in_levels h fs (rev (levels t)) start end result0 of
           Inl e \<Rightarrow> Inl e
         | Inr result \<Rightarrow> Inr (sort result))"

subsection \<open>A client\<close>

text \<open>A caller that puts a list of pairs one after the other and stops at the first
  exception. It is used to describe states the tree reaches through its interface.\<close>

fun run_puts ::
  "(string \<Rightarrow> int) \<Rightarrow> filesystem \<Rightarrow> LSMTree \<Rightarrow> (string \<times> string) list
     \<Rightarrow> (error \<times> LSMTree \<times> filesystem) + (LSMTree \<times> filesystem)" where
  "run_puts h fs t [] = Inr (t, fs)"
| "run_puts h fs t ((key, value) # rest) =
     (case LSMTree_put h fs t key value of
        Inl e \<Rightarrow> Inl e
      | Inr (t', fs') \<Rightarrow> run_puts h fs' t' rest)"

section \<open>Notions used in the proofs\<close>

text \<open>None of the following is part of the program. They describe what the program computes:
  which bits of a filter are set, the bytes that \<^verbatim>\<open>_build\<close> writes for a list of records, and
  the handle and the file it produces when nothing raises.\<close>

text \<open>A filter whose positions all fall inside its byte array; bit \<open>pos\<close> of a byte array;
  the position \<^verbatim>\<open>_hash\<close> computes for a key and a seed in a filter of \<open>m\<close> bits.\<close>

definition wf_bloom :: "BloomFilter \<Rightarrow> bool" where
  "wf_bloom bf = (0 < size_bf bf \<and> size_bf bf \<le> 8 * length (bits bf))"

definition bit_at :: "byte list \<Rightarrow> nat \<Rightarrow> bool" where
  "bit_at bs pos = (pos div 8 < length bs \<and> bit (bs ! (pos div 8)) (pos mod 8))"

definition hash_pos :: "(string \<Rightarrow> int) \<Rightarrow> nat \<Rightarrow> string \<Rightarrow> nat \<Rightarrow> nat" where
  "hash_pos h m key seed = nat (h (key @ str_nat seed) mod int m)"

text \<open>The bytes of one record and of a list of records, the offset of each record when the
  first starts at \<open>p\<close>, and the filter after the keys of the records have been added.\<close>

definition record_bytes :: "string \<Rightarrow> string \<Rightarrow> byte list" where
  "record_bytes k v = le_bytes 4 (length k) @ encode k @ le_bytes 4 (length v) @ encode v"

fun record_offsets :: "nat \<Rightarrow> (string \<times> string) list \<Rightarrow> nat list" where
  "record_offsets p [] = []"
| "record_offsets p ((k, v) # rest) = p # record_offsets (p + (8 + length k + length v)) rest"

fun data_bytes :: "(string \<times> string) list \<Rightarrow> byte list" where
  "data_bytes [] = []"
| "data_bytes ((k, v) # rest) = record_bytes k v @ data_bytes rest"

definition fits32 :: "(string \<times> string) list \<Rightarrow> bool" where
  "fits32 recs = list_all (\<lambda>(k, v). length k < 2 ^ 32 \<and> length v < 2 ^ 32) recs"

fun add_keys :: "(string \<Rightarrow> int) \<Rightarrow> (string \<times> string) list \<Rightarrow> BloomFilter \<Rightarrow> BloomFilter" where
  "add_keys h [] bf = bf"
| "add_keys h ((k, v) # rest) bf =
     add_keys h rest (case BloomFilter_add h bf k of Inr bf' \<Rightarrow> bf' | Inl e \<Rightarrow> bf)"

text \<open>The bytes of the index entries, and a size bound under which no length or offset
  overflows its field: every record counted with 20 bytes of overhead, the total below \<open>2\<^sup>3\<^sup>2\<close>.\<close>

fun index_bytes :: "(string \<times> nat) list \<Rightarrow> byte list" where
  "index_bytes [] = []"
| "index_bytes ((k, off) # rest) = le_bytes 4 (length k) @ encode k @ le_bytes 8 off @ index_bytes rest"

definition data_total :: "(string \<times> string) list \<Rightarrow> nat" where
  "data_total recs = sum_list (map (\<lambda>(k, v). length k + length v + 20) recs)"

definition small_data :: "(string \<times> string) list \<Rightarrow> bool" where
  "small_data recs = (data_total recs < 2 ^ 32)"

text \<open>The handle and the file that \<^verbatim>\<open>_build\<close> produces for \<open>data\<close> when nothing raises.\<close>

definition table_index :: "(string \<times> string) list \<Rightarrow> (string \<times> nat) list" where
  "table_index data = zip (map fst (sort_key fst data)) (record_offsets 0 (sort_key fst data))"

definition built_bloom :: "(string \<Rightarrow> int) \<Rightarrow> (string \<times> string) list \<Rightarrow> BloomFilter" where
  "built_bloom h data = add_keys h (sort_key fst data) BloomFilter_init"

definition built_sst :: "(string \<Rightarrow> int) \<Rightarrow> string \<Rightarrow> (string \<times> string) list \<Rightarrow> SSTable" where
  "built_sst h fname data = \<lparr>filename = fname, index = table_index data, bloom = Some (built_bloom h data)\<rparr>"

definition index_region :: "(string \<times> string) list \<Rightarrow> byte list" where
  "index_region data = le_bytes 4 (length data) @ index_bytes (table_index data)"

definition built_file :: "(string \<Rightarrow> int) \<Rightarrow> (string \<times> string) list \<Rightarrow> byte list" where
  "built_file h data =
     data_bytes (sort_key fst data) @ index_region data @ le_bytes 4 (length (index_region data)) @
     le_bytes 4 8192 @ le_bytes 4 4 @ bits (built_bloom h data)"

text \<open>A record whose key and value both fit a 32-bit length prefix.\<close>

definition within_limit :: "string \<times> string \<Rightarrow> bool" where
  "within_limit kv = (length (fst kv) < 2 ^ 32 \<and> length (snd kv) < 2 ^ 32)"

section \<open>Range scans with inverted bounds\<close>

lemma bisect_left_loop_ge: "lo \<le> bisect_left_loop a x lo hi"
proof (induction a x lo hi rule: bisect_left_loop.induct)
  case (1 a x lo hi)
  show ?case
  proof (cases "lo < hi")
    case True
    have "(if a ! ((lo + hi) div 2) < x then bisect_left_loop a x ((lo + hi) div 2 + 1) hi
         else bisect_left_loop a x lo ((lo + hi) div 2)) \<ge> lo"
      using 1[OF True] True by (auto split: if_splits)
    then show ?thesis using True by (subst bisect_left_loop.simps) simp
  next
    case False
    then show ?thesis by (subst bisect_left_loop.simps) simp
  qed
qed

lemma bisect_right_loop_le: "lo \<le> hi \<Longrightarrow> bisect_right_loop a x lo hi \<le> hi"
proof (induction a x lo hi rule: bisect_right_loop.induct)
  case (1 a x lo hi)
  show ?case
  proof (cases "lo < hi")
    case True
    have m: "(lo + hi) div 2 < hi" "lo \<le> (lo + hi) div 2" using True by auto
    show ?thesis
    proof (cases "x < a ! ((lo + hi) div 2)")
      case True
      with 1(1)[OF \<open>lo < hi\<close> True] m \<open>lo < hi\<close> show ?thesis
        by (subst bisect_right_loop.simps) simp
    next
      case False
      with 1(2)[OF \<open>lo < hi\<close> False] m \<open>lo < hi\<close> show ?thesis
        by (subst bisect_right_loop.simps) simp
    qed
  next
    case False
    then show ?thesis using 1(3) by (subst bisect_right_loop.simps) simp
  qed
qed

lemma bisect_right_le_left_loop:
  "e < s \<Longrightarrow> lo \<le> hi \<Longrightarrow> bisect_right_loop a e lo hi \<le> bisect_left_loop a s lo hi"
proof (induction a s lo hi rule: bisect_left_loop.induct)
  case (1 a s lo hi)
  show ?case
  proof (cases "lo < hi")
    case lt: True
    let ?m = "(lo + hi) div 2"
    have m: "?m < hi" "lo \<le> ?m" using lt by auto
    show ?thesis
    proof (cases "a ! ?m < s")
      case True
      have L: "bisect_left_loop a s lo hi = bisect_left_loop a s (?m + 1) hi"
        using lt True by (subst bisect_left_loop.simps) simp
      show ?thesis
      proof (cases "e < a ! ?m")
        case e: True
        have "bisect_right_loop a e lo hi = bisect_right_loop a e lo ?m"
          using lt e by (subst bisect_right_loop.simps) simp
        moreover have "bisect_right_loop a e lo ?m \<le> ?m" using m by (intro bisect_right_loop_le)
        moreover have "?m + 1 \<le> bisect_left_loop a s (?m + 1) hi" by (rule bisect_left_loop_ge)
        ultimately show ?thesis using L by simp
      next
        case e: False
        have "bisect_right_loop a e lo hi = bisect_right_loop a e (?m + 1) hi"
          using lt e by (subst bisect_right_loop.simps) simp
        moreover have "bisect_right_loop a e (?m + 1) hi \<le> bisect_left_loop a s (?m + 1) hi"
          using 1(1)[OF lt True \<open>e < s\<close>] m by simp
        ultimately show ?thesis using L by simp
      qed
    next
      case False
      have L: "bisect_left_loop a s lo hi = bisect_left_loop a s lo ?m"
        using lt False by (subst bisect_left_loop.simps) simp
      have e: "e < a ! ?m" using False \<open>e < s\<close> by simp
      have "bisect_right_loop a e lo hi = bisect_right_loop a e lo ?m"
        using lt e by (subst bisect_right_loop.simps) simp
      moreover have "bisect_right_loop a e lo ?m \<le> bisect_left_loop a s lo ?m"
        using 1(2)[OF lt False \<open>e < s\<close>] m by simp
      ultimately show ?thesis using L by simp
    qed
  next
    case False
    then show ?thesis by (subst bisect_left_loop.simps, subst bisect_right_loop.simps) simp
  qed
qed

lemma bisect_right_le_left: "e < s \<Longrightarrow> bisect_right a e \<le> bisect_left a s"
  by (simp add: bisect_left_def bisect_right_def bisect_right_le_left_loop)

lemma SSTable_range_inverted: "e < s \<Longrightarrow> SSTable_range h fs sst s e = Inr []"
  using bisect_right_le_left[of e s "map fst (index sst)"]
  by (simp add: SSTable_range_def Let_def)

lemma range_in_level_inverted:
  "e < s \<Longrightarrow> range_in_level h fs lvl s e result = Inr result"
  by (induction lvl) (simp_all add: SSTable_range_inverted)

lemma range_in_levels_inverted:
  "e < s \<Longrightarrow> range_in_levels h fs lvls s e result = Inr result"
  by (induction lvls) (simp_all add: range_in_level_inverted)

lemma memtable_fold_inverted:
  "e < (s::string) \<Longrightarrow> fold (\<lambda>(k, v) m. if s \<le> k \<and> k \<le> e then AList.update k v m else m) mt acc = acc"
  by (induction mt arbitrary: acc) (auto)

text \<open>
  Claim C10. For every tree state, every content of the working directory and all strings
  with \<open>start > end\<close>, \<^verbatim>\<open>LSMTree.range(start, end)\<close> returns the empty list and raises
  nothing: the memtable test \<^verbatim>\<open>start <= k <= end\<close> fails for every key, and in every table
  \<^verbatim>\<open>bisect_right(keys, end)\<close> is at most \<^verbatim>\<open>bisect_left(keys, start)\<close>, so no table is read.
  The statement needs no assumption on the tables (their index may even be unsorted).
\<close>

theorem LSMTree_range_inverted_bounds:
  "end < start \<Longrightarrow> LSMTree_range h fs t start end = Inr []"
  by (simp add: LSMTree_range_def memtable_fold_inverted range_in_levels_inverted)

theorem LSMTree_range_inverted_bounds_witness:
  "''a'' < ''z'' \<and>
   LSMTree_range (\<lambda>_. 0) Map.empty
     \<lparr>memtable = [(''b'', ''1'')], memtable_limit = 10,
      levels = [[\<lparr>filename = ''l0_0.sst'', index = [(''c'', 0)], bloom = Some BloomFilter_init\<rparr>]]\<rparr>
     ''z'' ''a'' = Inr []"
proof -
  have lt: "''a'' < ''z''" by simp
  show ?thesis using lt LSMTree_range_inverted_bounds [OF lt] by simp
qed

section \<open>The membership filter: which bits are set\<close>

lemma wf_bloom_init: "wf_bloom BloomFilter_init"
  by (simp add: wf_bloom_def BloomFilter_init_def)

lemma hash_pos_less: "0 < m \<Longrightarrow> hash_pos h m key seed < m"
  by (simp add: hash_pos_def nat_less_iff)

lemma BloomFilter_hash_wf:
  "wf_bloom bf \<Longrightarrow> BloomFilter_hash h bf key seed = Inr (hash_pos h (size_bf bf) key seed)"
  by (simp add: BloomFilter_hash_def wf_bloom_def hash_pos_def)

lemma hash_pos_in_bits:
  "wf_bloom bf \<Longrightarrow> hash_pos h (size_bf bf) key seed div 8 < length (bits bf)"
  using hash_pos_less[of "size_bf bf" h key seed] by (auto simp: wf_bloom_def)

lemma byte_and_bit: "((w::byte) AND 2 ^ n = 0) = (\<not> bit w n)"
  using bit_iff_and_push_bit_not_eq_0[of w n] by (simp add: push_bit_of_1)

lemma bit_at_set:
  "p div 8 < length bs \<Longrightarrow>
   bit_at (bs[p div 8 := (bs ! (p div 8)) OR push_bit (p mod 8) 1]) q = (bit_at bs q \<or> q = p)"
proof -
  assume l: "p div 8 < length bs"
  have b: "bit ((2::byte) ^ (p mod 8)) (q mod 8) = (q mod 8 = p mod 8)"
    by (auto simp: bit_exp_iff)
  have e: "q = p \<longleftrightarrow> q div 8 = p div 8 \<and> q mod 8 = p mod 8"
    by (metis div_mult_mod_eq)
  show ?thesis
    using l by (cases "q div 8 = p div 8") (auto simp: bit_at_def bit_or_iff b e)
qed

lemma add_loop_wf:
  "wf_bloom bf \<Longrightarrow>
   \<exists>bf'. add_loop h key seeds bf = Inr bf' \<and> wf_bloom bf' \<and> size_bf bf' = size_bf bf \<and>
     num_hashes bf' = num_hashes bf \<and> length (bits bf') = length (bits bf) \<and>
     (\<forall>q. bit_at (bits bf') q = (bit_at (bits bf) q \<or> q \<in> hash_pos h (size_bf bf) key ` set seeds))"
proof (induction seeds arbitrary: bf)
  case Nil
  then show ?case by simp
next
  case (Cons i rest)
  let ?p = "hash_pos h (size_bf bf) key i"
  let ?bf = "bf\<lparr>bits := (bits bf)[?p div 8 := (bits bf ! (?p div 8)) OR push_bit (?p mod 8) 1]\<rparr>"
  have p: "?p div 8 < length (bits bf)" using Cons.prems by (rule hash_pos_in_bits)
  have wf: "wf_bloom ?bf" using Cons.prems by (simp add: wf_bloom_def)
  from Cons.IH[OF wf] obtain bf' where
    r: "add_loop h key rest ?bf = Inr bf'" "wf_bloom bf'" "size_bf bf' = size_bf bf"
       "num_hashes bf' = num_hashes bf" "length (bits bf') = length (bits bf)"
       "\<forall>q. bit_at (bits bf') q = (bit_at (bits ?bf) q \<or> q \<in> hash_pos h (size_bf bf) key ` set rest)"
    by auto
  have "add_loop h key (i # rest) bf = Inr bf'"
    using r(1) p by (simp add: BloomFilter_hash_wf[OF Cons.prems])
  moreover have "\<forall>q. bit_at (bits bf') q = (bit_at (bits bf) q \<or> q \<in> hash_pos h (size_bf bf) key ` set (i # rest))"
    using r(6) bit_at_set[OF p] by auto
  ultimately show ?case using r by blast
qed

lemma might_contain_loop_wf:
  "wf_bloom bf \<Longrightarrow>
   might_contain_loop h bf key seeds = Inr (list_all (\<lambda>i. bit_at (bits bf) (hash_pos h (size_bf bf) key i)) seeds)"
proof (induction seeds)
  case Nil
  then show ?case by simp
next
  case (Cons i rest)
  have p: "hash_pos h (size_bf bf) key i div 8 < length (bits bf)"
    using Cons.prems by (rule hash_pos_in_bits)
  show ?case
    using Cons p by (simp add: BloomFilter_hash_wf byte_and_bit bit_at_def)
qed

lemma BloomFilter_add_wf:
  assumes "wf_bloom bf"
  obtains bf' where "BloomFilter_add h bf key = Inr bf'" "wf_bloom bf'" "size_bf bf' = size_bf bf"
    "num_hashes bf' = num_hashes bf" "length (bits bf') = length (bits bf)"
    "\<And>q. bit_at (bits bf') q = (bit_at (bits bf) q \<or> q \<in> hash_pos h (size_bf bf) key ` {0..<num_hashes bf})"
  using add_loop_wf[OF assms, of h key "[0..<num_hashes bf]"] unfolding BloomFilter_add_def
  by auto

lemma might_contain_after_add:
  assumes "wf_bloom bf" "size_bf bf' = size_bf bf" "num_hashes bf' = num_hashes bf" "wf_bloom bf'"
    "\<And>i. i < num_hashes bf \<Longrightarrow> bit_at (bits bf') (hash_pos h (size_bf bf) key i)"
  shows "BloomFilter_might_contain h bf' key = Inr True"
  using assms by (simp add: BloomFilter_might_contain_def might_contain_loop_wf list_all_iff)

section \<open>Bytes written by the record loop\<close>

lemma length_le_bytes [simp]: "length (le_bytes k n) = k"
  by (induction k arbitrary: n) auto

lemma le_nat_le_bytes: "le_nat (le_bytes k n) = n mod 256 ^ k"
proof (induction k arbitrary: n)
  case 0
  then show ?case by simp
next
  case (Suc k)
  have "unat (word_of_nat n :: byte) = n mod 256" by (simp add: unat_of_nat)
  then show ?case using Suc
    by (simp add: mod_mult2_eq)
qed

lemma unpack_I_le_bytes: "n < 2 ^ 32 \<Longrightarrow> unpack_I (le_bytes 4 n) = Inr n"
  by (simp add: unpack_I_def le_nat_le_bytes)

lemma unpack_Q_le_bytes: "n < 2 ^ 64 \<Longrightarrow> unpack_Q (le_bytes 8 n) = Inr n"
  by (simp add: unpack_Q_def le_nat_le_bytes)

lemma length_encode [simp]: "length (encode s) = length s"
  by (simp add: encode_def)

lemma decode_encode [simp]: "decode (encode s) = s"
proof -
  have "char_of (unat (word_of_nat (of_char c) :: byte)) = c" for c
    by (simp add: unat_of_nat)
  then show ?thesis by (simp add: encode_def decode_def map_idI)
qed

lemma length_record_bytes [simp]: "length (record_bytes k v) = 8 + length k + length v"
  by (simp add: record_bytes_def)

lemma length_record_offsets [simp]: "length (record_offsets p recs) = length recs"
  by (induction p recs rule: record_offsets.induct) auto

lemma add_keys_wf:
  "wf_bloom bf \<Longrightarrow>
   wf_bloom (add_keys h recs bf) \<and> size_bf (add_keys h recs bf) = size_bf bf \<and>
   num_hashes (add_keys h recs bf) = num_hashes bf \<and>
   length (bits (add_keys h recs bf)) = length (bits bf) \<and>
   (\<forall>q. bit_at (bits (add_keys h recs bf)) q =
      (bit_at (bits bf) q \<or> (\<exists>k \<in> fst ` set recs. q \<in> hash_pos h (size_bf bf) k ` {0..<num_hashes bf})))"
proof (induction recs arbitrary: bf)
  case Nil
  then show ?case by simp
next
  case (Cons kv recs)
  obtain k v where kv: "kv = (k, v)" by (cases kv)
  from BloomFilter_add_wf[OF Cons.prems, of h k] obtain bf' where
    a: "BloomFilter_add h bf k = Inr bf'" "wf_bloom bf'" "size_bf bf' = size_bf bf"
      "num_hashes bf' = num_hashes bf" "length (bits bf') = length (bits bf)"
      "\<And>q. bit_at (bits bf') q = (bit_at (bits bf) q \<or> q \<in> hash_pos h (size_bf bf) k ` {0..<num_hashes bf})"
    by blast
  have e: "add_keys h (kv # recs) bf = add_keys h recs bf'" using a(1) kv by simp
  show ?case unfolding e using Cons.IH[OF a(2)] a(3-6) kv by auto
qed

lemma write_records_fits:
  "wf_bloom bf \<Longrightarrow> fits32 recs \<Longrightarrow>
   write_records h recs bf offs f =
     Inr (add_keys h recs bf, offs @ record_offsets (length f) recs, f @ data_bytes recs)"
proof (induction recs arbitrary: bf offs f)
  case Nil
  then show ?case by simp
next
  case (Cons kv recs)
  obtain k v where kv: "kv = (k, v)" by (cases kv)
  from BloomFilter_add_wf[OF Cons.prems(1), of h k] obtain bf' where
    a: "BloomFilter_add h bf k = Inr bf'" "wf_bloom bf'"
    by blast
  have f: "length k < 2 ^ 32" "length v < 2 ^ 32" "fits32 recs"
    using Cons.prems(2) kv by (auto simp: fits32_def)
  show ?case
    using Cons.IH[OF a(2) f(3)] a(1) f(1,2) kv
    by (simp add: pack_I_def record_bytes_def add.assoc)
qed

lemma write_records_not_fits:
  "wf_bloom bf \<Longrightarrow> \<not> fits32 recs \<Longrightarrow> \<exists>f'. write_records h recs bf offs f = Inl (StructError, f')"
proof (induction recs arbitrary: bf offs f)
  case Nil
  then show ?case by (simp add: fits32_def)
next
  case (Cons kv recs)
  obtain k v where kv: "kv = (k, v)" by (cases kv)
  from BloomFilter_add_wf[OF Cons.prems(1), of h k] obtain bf' where
    a: "BloomFilter_add h bf k = Inr bf'" "wf_bloom bf'"
    by blast
  show ?case
  proof (cases "length k < 2 ^ 32 \<and> length v < 2 ^ 32")
    case True
    then have "\<not> fits32 recs" using Cons.prems(2) kv by (auto simp: fits32_def)
    from Cons.IH[OF a(2) this] show ?thesis using a(1) True kv by (simp add: pack_I_def)
  next
    case False
    then show ?thesis using a(1) kv by (auto simp: pack_I_def)
  qed
qed

section \<open>The result of a build that does not raise\<close>

lemma data_total_insort: "data_total (insort_key f x recs) = data_total [x] + data_total recs"
  by (induction recs) (auto simp: data_total_def)

lemma data_total_sort [simp]: "data_total (sort_key f recs) = data_total recs"
proof (induction recs)
  case Nil
  then show ?case by simp
next
  case (Cons x recs)
  then show ?case by (simp add: data_total_insort) (simp add: data_total_def)
qed

lemma data_total_Cons [simp]: "data_total ((k, v) # recs) = length k + length v + 20 + data_total recs"
  by (simp add: data_total_def)

lemma data_total_Nil [simp]: "data_total [] = 0"
  by (simp add: data_total_def)

lemma small_fits32: "data_total recs < 2 ^ 32 \<Longrightarrow> fits32 recs"
  by (induction recs) (auto simp: fits32_def)

lemma length_le_data_total: "20 * length recs \<le> data_total recs"
  by (induction recs) auto

lemma length_data_bytes: "length (data_bytes recs) + 12 * length recs \<le> data_total recs"
  by (induction recs) auto

lemma record_offsets_bound:
  "off \<in> set (record_offsets p recs) \<Longrightarrow> off + 12 * length recs \<le> p + data_total recs"
proof (induction p recs rule: record_offsets.induct)
  case (1 p)
  then show ?case by simp
next
  case (2 p k v rest)
  then show ?case using length_le_data_total[of rest] by auto
qed

lemma index_entries_ok:
  "length offs = length recs \<Longrightarrow> fits32 recs \<Longrightarrow> \<forall>off \<in> set offs. off < 2 ^ 64 \<Longrightarrow>
   index_entries (zip (map fst recs) offs) acc = Inr (acc @ index_bytes (zip (map fst recs) offs))"
proof (induction recs arbitrary: offs acc)
  case Nil
  then show ?case by simp
next
  case (Cons kv recs)
  obtain k v where kv: "kv = (k, v)" by (cases kv)
  obtain off offs' where offs: "offs = off # offs'" using Cons.prems(1) by (cases offs) auto
  have f: "length k < 2 ^ 32" "fits32 recs" using Cons.prems(2) kv by (auto simp: fits32_def)
  have o: "off < 2 ^ 64" "\<forall>off \<in> set offs'. off < 2 ^ 64" "length offs' = length recs"
    using Cons.prems offs by auto
  show ?case using Cons.IH[OF o(3) f(2) o(2)] f(1) o(1) kv offs
    by (simp add: pack_I_def pack_Q_def)
qed

lemma length_index_bytes:
  "length offs = length recs \<Longrightarrow>
   length (index_bytes (zip (map fst recs) offs)) + 8 * length recs \<le> data_total recs"
proof (induction recs arbitrary: offs)
  case Nil
  then show ?case by simp
next
  case (Cons kv recs)
  obtain k v where kv: "kv = (k, v)" by (cases kv)
  obtain off offs' where offs: "offs = off # offs'" using Cons.prems(1) by (cases offs) auto
  show ?case using Cons.IH[of offs'] Cons.prems kv offs by simp
qed

lemma length_index_region: "length (index_region data) \<le> 4 + data_total data"
  using length_index_bytes[of "record_offsets 0 (sort_key fst data)" "sort_key fst data"]
  by (simp add: index_region_def table_index_def)

lemma wf_built_bloom: "wf_bloom (built_bloom h data)"
  unfolding built_bloom_def using add_keys_wf[OF wf_bloom_init] by blast

lemma built_bloom_params:
  "size_bf (built_bloom h data) = 8192" "num_hashes (built_bloom h data) = 4"
  "length (bits (built_bloom h data)) = 1024"
  unfolding built_bloom_def using add_keys_wf[OF wf_bloom_init, of h "sort_key fst data"]
  by (simp_all add: BloomFilter_init_def)

lemma SSTable_build_small:
  assumes "small_data data"
  shows "SSTable_build h fs fname data = Inr (built_sst h fname data, fs(fname \<mapsto> built_file h data))"
proof -
  let ?ds = "sort_key fst data"
  have tot: "data_total ?ds < 2 ^ 32" using assms by (simp add: small_data_def)
  have fits: "fits32 ?ds" using tot by (rule small_fits32)
  have w: "write_records h ?ds BloomFilter_init [] [] =
      Inr (built_bloom h data, record_offsets 0 ?ds, data_bytes ?ds)"
    using write_records_fits[OF wf_bloom_init fits, of h "[]" "[]"] by (simp add: built_bloom_def)
  have len: "length data < 2 ^ 32"
    using length_le_data_total[of data] assms by (simp add: small_data_def)
  have offs: "\<forall>off \<in> set (record_offsets 0 ?ds). off < 2 ^ 64"
  proof
    fix off assume "off \<in> set (record_offsets 0 ?ds)"
    from record_offsets_bound[OF this] tot have "off < 2 ^ 32" by simp
    also have "(2::nat) ^ 32 < 2 ^ 64" by simp
    finally show "off < 2 ^ 64" .
  qed
  have ie: "index_entries (table_index data) (le_bytes 4 (length data)) = Inr (index_region data)"
    using index_entries_ok[OF _ fits offs, of "le_bytes 4 (length data)"]
    by (simp add: table_index_def index_region_def)
  have il: "length (index_region data) < 2 ^ 32"
  proof (cases "data = []")
    case True
    then show ?thesis by (simp add: index_region_def table_index_def)
  next
    case False
    then have "1 \<le> length ?ds" by (cases data) auto
    then have "length (index_region data) \<le> 4 + (data_total ?ds - 8)"
      using length_index_bytes[of "record_offsets 0 ?ds" ?ds]
      by (simp add: index_region_def table_index_def)
    then show ?thesis using tot by simp
  qed
  have ser: "BloomFilter_serialize (built_bloom h data) =
      Inr (le_bytes 4 8192 @ le_bytes 4 4 @ bits (built_bloom h data))"
    by (simp add: BloomFilter_serialize_def built_bloom_params pack_I_def)
  have tl: "length (table_index data) = length data" by (simp add: table_index_def)
  show ?thesis
    unfolding SSTable_build_def Let_def w
    using len il
    by (simp add: ie ser pack_I_def built_sst_def built_file_def tl
        table_index_def[symmetric] del: le_bytes.simps)
qed

section \<open>Reading a record back; binary search on sorted keys\<close>

lemma read_value_record:
  assumes "length k < 2 ^ 32" "length v < 2 ^ 32"
  shows "read_value (pre @ record_bytes k v @ post) (length pre) = Inr v"
  using assms
  by (simp add: read_value_def record_bytes_def unpack_I_le_bytes del: le_bytes.simps)

lemma read_value_data:
  "fits32 recs \<Longrightarrow> i < length recs \<Longrightarrow>
   read_value (pre @ data_bytes recs @ post) (record_offsets (length pre) recs ! i) = Inr (snd (recs ! i))"
proof (induction recs arbitrary: pre i)
  case Nil
  then show ?case by simp
next
  case (Cons kv recs)
  obtain k v where kv: "kv = (k, v)" by (cases kv)
  have f: "length k < 2 ^ 32" "length v < 2 ^ 32" "fits32 recs"
    using Cons.prems(1) kv by (auto simp: fits32_def)
  show ?case
  proof (cases i)
    case 0
    then show ?thesis using read_value_record[OF f(1,2), of pre "data_bytes recs @ post"] kv by simp
  next
    case (Suc j)
    then have j: "j < length recs" using Cons.prems(2) by simp
    from Cons.IH[OF f(3) j, of "pre @ record_bytes k v"]
    show ?thesis using kv Suc by (simp add: add.assoc)
  qed
qed

lemma bisect_left_loop_sorted:
  "sorted a \<Longrightarrow> lo \<le> hi \<Longrightarrow> hi \<le> length a \<Longrightarrow> (\<forall>i<lo. a ! i < x) \<Longrightarrow>
   (\<forall>i. hi \<le> i \<and> i < length a \<longrightarrow> x \<le> a ! i) \<Longrightarrow>
   bisect_left_loop a x lo hi \<le> length a \<and> (\<forall>i < bisect_left_loop a x lo hi. a ! i < x) \<and>
   (\<forall>i. bisect_left_loop a x lo hi \<le> i \<and> i < length a \<longrightarrow> x \<le> a ! i)"
proof (induction a x lo hi rule: bisect_left_loop.induct)
  case (1 a x lo hi)
  let ?m = "(lo + hi) div 2"
  show ?case
  proof (cases "lo < hi")
    case lt: True
    have m: "?m < hi" "lo \<le> ?m" "?m < length a" using lt 1(5) by auto
    show ?thesis
    proof (cases "a ! ?m < x")
      case True
      have e: "bisect_left_loop a x lo hi = bisect_left_loop a x (?m + 1) hi"
        using lt True by (subst bisect_left_loop.simps) simp
      have low: "\<forall>i < ?m + 1. a ! i < x"
      proof (intro allI impI)
        fix i assume "i < ?m + 1"
        then have "a ! i \<le> a ! ?m" using \<open>sorted a\<close> m(3) by (auto simp: sorted_iff_nth_mono)
        then show "a ! i < x" using True by simp
      qed
      show ?thesis unfolding e
        using 1(1)[OF lt True \<open>sorted a\<close> _ \<open>hi \<le> length a\<close> low 1(7)] m by simp
    next
      case False
      have e: "bisect_left_loop a x lo hi = bisect_left_loop a x lo ?m"
        using lt False by (subst bisect_left_loop.simps) simp
      have high: "\<forall>i. ?m \<le> i \<and> i < length a \<longrightarrow> x \<le> a ! i"
      proof (intro allI impI)
        fix i assume "?m \<le> i \<and> i < length a"
        then have "a ! ?m \<le> a ! i" using \<open>sorted a\<close> by (auto simp: sorted_iff_nth_mono)
        then show "x \<le> a ! i" using False by simp
      qed
      show ?thesis unfolding e
        using 1(2)[OF lt False \<open>sorted a\<close> m(2) _ 1(6) high] m by simp
    qed
  next
    case False
    then have e: "bisect_left_loop a x lo hi = lo" by (subst bisect_left_loop.simps) simp
    have "lo = hi" using False 1(4) by simp
    then show ?thesis unfolding e using 1(5,6,7) by simp
  qed
qed

lemma bisect_right_loop_sorted:
  "sorted a \<Longrightarrow> lo \<le> hi \<Longrightarrow> hi \<le> length a \<Longrightarrow> (\<forall>i<lo. a ! i \<le> x) \<Longrightarrow>
   (\<forall>i. hi \<le> i \<and> i < length a \<longrightarrow> x < a ! i) \<Longrightarrow>
   bisect_right_loop a x lo hi \<le> length a \<and> (\<forall>i < bisect_right_loop a x lo hi. a ! i \<le> x) \<and>
   (\<forall>i. bisect_right_loop a x lo hi \<le> i \<and> i < length a \<longrightarrow> x < a ! i)"
proof (induction a x lo hi rule: bisect_right_loop.induct)
  case (1 a x lo hi)
  let ?m = "(lo + hi) div 2"
  show ?case
  proof (cases "lo < hi")
    case lt: True
    have m: "?m < hi" "lo \<le> ?m" "?m < length a" using lt 1(5) by auto
    show ?thesis
    proof (cases "x < a ! ?m")
      case True
      have e: "bisect_right_loop a x lo hi = bisect_right_loop a x lo ?m"
        using lt True by (subst bisect_right_loop.simps) simp
      have high: "\<forall>i. ?m \<le> i \<and> i < length a \<longrightarrow> x < a ! i"
      proof (intro allI impI)
        fix i assume "?m \<le> i \<and> i < length a"
        then have "a ! ?m \<le> a ! i" using \<open>sorted a\<close> by (auto simp: sorted_iff_nth_mono)
        then show "x < a ! i" using True by simp
      qed
      show ?thesis unfolding e
        using 1(1)[OF lt True \<open>sorted a\<close> m(2) _ 1(6) high] m by simp
    next
      case False
      have e: "bisect_right_loop a x lo hi = bisect_right_loop a x (?m + 1) hi"
        using lt False by (subst bisect_right_loop.simps) simp
      have low: "\<forall>i < ?m + 1. a ! i \<le> x"
      proof (intro allI impI)
        fix i assume "i < ?m + 1"
        then have "a ! i \<le> a ! ?m" using \<open>sorted a\<close> m(3) by (auto simp: sorted_iff_nth_mono)
        then show "a ! i \<le> x" using False by simp
      qed
      show ?thesis unfolding e
        using 1(2)[OF lt False \<open>sorted a\<close> _ \<open>hi \<le> length a\<close> low 1(7)] m by simp
    qed
  next
    case False
    then have e: "bisect_right_loop a x lo hi = lo" by (subst bisect_right_loop.simps) simp
    have "lo = hi" using False 1(4) by simp
    then show ?thesis unfolding e using 1(5,6,7) by simp
  qed
qed

lemma bisect_left_sorted:
  assumes "sorted a"
  shows "bisect_left a x \<le> length a" "\<And>i. i < bisect_left a x \<Longrightarrow> a ! i < x"
    "\<And>i. bisect_left a x \<le> i \<Longrightarrow> i < length a \<Longrightarrow> x \<le> a ! i"
proof -
  have "bisect_left_loop a x 0 (length a) \<le> length a \<and>
        (\<forall>i < bisect_left_loop a x 0 (length a). a ! i < x) \<and>
        (\<forall>i. bisect_left_loop a x 0 (length a) \<le> i \<and> i < length a \<longrightarrow> x \<le> a ! i)"
    by (rule bisect_left_loop_sorted[OF assms]) auto
  then show "bisect_left a x \<le> length a" "\<And>i. i < bisect_left a x \<Longrightarrow> a ! i < x"
    "\<And>i. bisect_left a x \<le> i \<Longrightarrow> i < length a \<Longrightarrow> x \<le> a ! i"
    by (simp_all add: bisect_left_def)
qed

lemma bisect_right_sorted:
  assumes "sorted a"
  shows "bisect_right a x \<le> length a" "\<And>i. i < bisect_right a x \<Longrightarrow> a ! i \<le> x"
    "\<And>i. bisect_right a x \<le> i \<Longrightarrow> i < length a \<Longrightarrow> x < a ! i"
proof -
  have "bisect_right_loop a x 0 (length a) \<le> length a \<and>
        (\<forall>i < bisect_right_loop a x 0 (length a). a ! i \<le> x) \<and>
        (\<forall>i. bisect_right_loop a x 0 (length a) \<le> i \<and> i < length a \<longrightarrow> x < a ! i)"
    by (rule bisect_right_loop_sorted[OF assms]) auto
  then show "bisect_right a x \<le> length a" "\<And>i. i < bisect_right a x \<Longrightarrow> a ! i \<le> x"
    "\<And>i. bisect_right a x \<le> i \<Longrightarrow> i < length a \<Longrightarrow> x < a ! i"
    by (simp_all add: bisect_right_def)
qed

lemma bisect_left_member:
  assumes "sorted a" "x \<in> set a"
  shows "bisect_left a x < length a \<and> a ! bisect_left a x = x"
proof -
  obtain j where j: "j < length a" "a ! j = x" using assms(2) by (auto simp: in_set_conv_nth)
  let ?r = "bisect_left a x"
  have rj: "?r \<le> j" using bisect_left_sorted(2)[OF assms(1), where i=j and x=x] j by (cases "j < ?r") auto
  then have lt: "?r < length a" using j by simp
  have "x \<le> a ! ?r" using bisect_left_sorted(3)[OF assms(1), where i="?r" and x=x] lt by simp
  moreover have "a ! ?r \<le> a ! j" using assms(1) rj j by (auto simp: sorted_iff_nth_mono)
  ultimately show ?thesis using lt j by simp
qed

lemma sorted_window:
  assumes "sorted a"
  shows "map (\<lambda>i. a ! i) [bisect_left a s..<bisect_right a e] = filter (\<lambda>k. s \<le> k \<and> k \<le> e) a"
proof -
  let ?l = "bisect_left a s" and ?r = "bisect_right a e"
  have P: "(s \<le> a ! i \<and> a ! i \<le> e) = (?l \<le> i \<and> i < ?r)" if "i < length a" for i
    using bisect_left_sorted(2,3)[OF assms, where i=i and x=s]
      bisect_right_sorted(2,3)[OF assms, where i=i and x=e] that
    by (metis leD leI)
  have "filter (\<lambda>k. s \<le> k \<and> k \<le> e) a = map (\<lambda>i. a ! i) (filter (\<lambda>i. s \<le> a ! i \<and> a ! i \<le> e) [0..<length a])"
    by (metis (mono_tags, lifting) filter_map map_nth o_def filter_cong)
  also have "filter (\<lambda>i. s \<le> a ! i \<and> a ! i \<le> e) [0..<length a] = filter (\<lambda>i. ?l \<le> i \<and> i < ?r) [0..<length a]"
    by (rule filter_cong) (auto simp: P)
  also have "\<dots> = [?l..<?r]"
  proof (rule sorted_distinct_set_unique)
    show "set (filter (\<lambda>i. ?l \<le> i \<and> i < ?r) [0..<length a]) = set [?l..<?r]"
      using bisect_right_sorted(1)[OF assms, of e] by auto
  qed (auto simp: sorted_wrt_filter)
  finally show ?thesis by simp
qed

section \<open>Point lookups and range scans on a built table\<close>

lemma sorted_keys_sort: "sorted (map fst (sort_key fst (data :: (string \<times> string) list)))"
  by (rule sorted_sort_key)

lemma set_sort_data: "set (sort_key fst data) = set data"
  by simp

lemma keys_table_index [simp]: "map fst (table_index data) = map fst (sort_key fst data)"
  by (simp add: table_index_def)

lemma length_table_index [simp]: "length (table_index data) = length data"
  by (simp add: table_index_def)

lemma snd_table_index:
  "i < length data \<Longrightarrow> snd (table_index data ! i) = record_offsets 0 (sort_key fst data) ! i"
  by (simp add: table_index_def)

lemma built_sst_sel [simp]:
  "filename (built_sst h fname data) = fname"
  "index (built_sst h fname data) = table_index data"
  "bloom (built_sst h fname data) = Some (built_bloom h data)"
  by (simp_all add: built_sst_def)

lemma built_bloom_member:
  assumes "key \<in> fst ` set data"
  shows "BloomFilter_might_contain h (built_bloom h data) key = Inr True"
proof -
  have a: "\<forall>q. bit_at (bits (built_bloom h data)) q =
      (bit_at (bits BloomFilter_init) q \<or>
       (\<exists>k \<in> fst ` set (sort_key fst data). q \<in> hash_pos h (size_bf BloomFilter_init) k ` {0..<num_hashes BloomFilter_init}))"
    unfolding built_bloom_def using add_keys_wf[OF wf_bloom_init, of h "sort_key fst data"] by blast
  have "list_all (\<lambda>i. bit_at (bits (built_bloom h data)) (hash_pos h 8192 key i)) [0..<4]"
    unfolding list_all_iff
  proof
    fix i assume "i \<in> set [0..<4]"
    then have "hash_pos h 8192 key i \<in> hash_pos h (size_bf BloomFilter_init) key ` {0..<num_hashes BloomFilter_init}"
      by (simp add: BloomFilter_init_def)
    then show "bit_at (bits (built_bloom h data)) (hash_pos h 8192 key i)"
      using a assms by auto
  qed
  then show ?thesis
    by (simp add: BloomFilter_might_contain_def might_contain_loop_wf[OF wf_built_bloom]
        built_bloom_params)
qed

lemma built_bloom_total:
  "\<exists>b. BloomFilter_might_contain h (built_bloom h data) key = Inr b"
  by (simp add: BloomFilter_might_contain_def might_contain_loop_wf[OF wf_built_bloom])

lemma map_of_sorted_nth:
  assumes "distinct (map fst data)" "i < length data"
  shows "map_of data (fst (sort_key fst data ! i)) = Some (snd (sort_key fst data ! i))"
proof -
  have "sort_key fst data ! i \<in> set data"
    using assms(2) by (metis length_sort nth_mem set_sort)
  then show ?thesis using assms(1) by (metis map_of_is_SomeI prod.collapse)
qed

lemma SSTable_get_built_member:
  assumes "small_data data" "distinct (map fst data)" "key \<in> fst ` set data"
  shows "SSTable_get h fs (built_sst h fname data) key =
     (case fs fname of None \<Rightarrow> Inl FileNotFoundError
      | Some f \<Rightarrow> if f = built_file h data then Inr (map_of data key)
          else (case read_value f (snd (table_index data ! bisect_left (map fst (sort_key fst data)) key)) of
                  Inl e \<Rightarrow> Inl e | Inr value \<Rightarrow> Inr (Some value)))"
proof -
  let ?ds = "sort_key fst data"
  let ?keys = "map fst ?ds"
  let ?pos = "bisect_left ?keys key"
  have mem: "key \<in> set ?keys" using assms(3) by simp
  from bisect_left_member[OF sorted_keys_sort mem]
  have pos: "?pos < length data" "?keys ! ?pos = key" by simp_all
  have fits: "fits32 ?ds" using assms(1) by (intro small_fits32) (simp add: small_data_def)
  have rv: "read_value (built_file h data) (snd (table_index data ! ?pos)) = Inr (snd (?ds ! ?pos))"
    using read_value_data[OF fits, of ?pos "[]"] pos(1)
    by (simp add: built_file_def snd_table_index)
  have k: "fst (?ds ! ?pos) = key" using pos by simp
  have mo: "map_of data key = Some (snd (?ds ! ?pos))"
    using map_of_sorted_nth[OF assms(2) pos(1)] k by simp
  show ?thesis
    using pos rv mo
    by (simp add: SSTable_get_def built_bloom_member[OF assms(3)] Let_def split: option.splits)
qed

lemma SSTable_get_built_absent:
  assumes "key \<notin> fst ` set data"
  shows "SSTable_get h fs (built_sst h fname data) key = Inr None"
proof -
  let ?keys = "map fst (sort_key fst data)"
  obtain b where b: "BloomFilter_might_contain h (built_bloom h data) key = Inr b"
    using built_bloom_total by blast
  have "?keys ! bisect_left ?keys key \<noteq> key" if "bisect_left ?keys key < length ?keys"
    using that assms by (metis nth_mem set_map set_sort)
  then show ?thesis
    using b by (cases b) (auto simp: SSTable_get_def Let_def)
qed

lemma map_of_absent: "key \<notin> fst ` set data \<Longrightarrow> map_of data key = None"
  by (simp add: map_of_eq_None_iff)

lemma SSTable_get_built:
  assumes "small_data data" "distinct (map fst data)" "fs fname = Some (built_file h data)"
  shows "SSTable_get h fs (built_sst h fname data) key = Inr (map_of data key)"
proof (cases "key \<in> fst ` set data")
  case True
  then show ?thesis using SSTable_get_built_member[OF assms(1,2) True, of h fs fname] assms(3) by simp
next
  case False
  then show ?thesis by (simp add: SSTable_get_built_absent map_of_absent)
qed

lemma SSTable_get_built_missing:
  assumes "small_data data" "distinct (map fst data)" "fs fname = None"
  shows "SSTable_get h fs (built_sst h fname data) key =
     (if key \<in> fst ` set data then Inl FileNotFoundError else Inr None)"
proof (cases "key \<in> fst ` set data")
  case True
  then show ?thesis using SSTable_get_built_member[OF assms(1,2) True, of h fs fname] assms(3) by simp
next
  case False
  then show ?thesis by (simp add: SSTable_get_built_absent)
qed

lemma range_loop_built:
  assumes "small_data data" "distinct (map fst data)" "fs fname = Some (built_file h data)"
  shows "range_loop h fs (built_sst h fname data) ks acc =
     Inr (acc @ concat (map (\<lambda>k. case map_of data k of None \<Rightarrow> [] | Some v \<Rightarrow> [(k, v)]) ks))"
proof (induction ks arbitrary: acc)
  case Nil
  then show ?case by simp
next
  case (Cons k ks)
  show ?case
    by (cases "map_of data k") (simp_all add: SSTable_get_built[where fs=fs and fname=fname, OF assms] Cons)
qed

lemma window_pairs:
  assumes "distinct (map fst data)" "set xs \<subseteq> set data"
  shows "concat (map (\<lambda>k. case map_of data k of None \<Rightarrow> [] | Some v \<Rightarrow> [(k, v)])
           (filter P (map fst xs))) = filter (\<lambda>(k, v). P k) xs"
  using assms(2)
proof (induction xs)
  case Nil
  then show ?case by simp
next
  case (Cons kv xs)
  obtain k v where kv: "kv = (k, v)" by (cases kv)
  have "map_of data k = Some v" using Cons.prems kv assms(1) by (simp add: map_of_is_SomeI)
  then show ?case using Cons kv by simp
qed

lemma SSTable_range_built:
  assumes "small_data data" "distinct (map fst data)" "fs fname = Some (built_file h data)"
  shows "SSTable_range h fs (built_sst h fname data) s e =
     Inr (filter (\<lambda>(k, v). s \<le> k \<and> k \<le> e) (sort_key fst data))"
proof -
  let ?ds = "sort_key fst data"
  have w: "map (\<lambda>i. map fst ?ds ! i) [bisect_left (map fst ?ds) s..<bisect_right (map fst ?ds) e] =
           filter (\<lambda>k. s \<le> k \<and> k \<le> e) (map fst ?ds)"
    by (rule sorted_window[OF sorted_keys_sort])
  show ?thesis
    unfolding SSTable_range_def Let_def built_sst_sel keys_table_index w
    by (simp add: range_loop_built[where fs=fs and fname=fname, OF assms] window_pairs[OF assms(2)])
qed

section \<open>Filter soundness\<close>

lemma index_entries_Inr:
  "index_entries idx acc = Inr x \<Longrightarrow> x = acc @ index_bytes idx"
proof (induction idx arbitrary: acc)
  case Nil
  then show ?case by simp
next
  case (Cons ko idx)
  obtain k off where ko: "ko = (k, off)" by (cases ko)
  from Cons.prems ko obtain kl ob where
    p: "pack_I (length (encode k)) = Inr kl" "pack_Q off = Inr ob"
       "index_entries idx (acc @ kl @ encode k @ ob) = Inr x"
    by (auto split: sum.splits)
  have "kl = le_bytes 4 (length k)" "ob = le_bytes 8 off"
    using p(1,2) by (auto simp: pack_I_def pack_Q_def split: if_splits)
  then show ?case using Cons.IH[OF p(3)] ko by simp
qed

lemma SSTable_build_Inr:
  assumes "SSTable_build h fs fname data = Inr (sst, fs')"
  shows "sst = built_sst h fname data \<and> fs' = fs(fname \<mapsto> built_file h data) \<and>
         fits32 (sort_key fst data)"
proof -
  let ?ds = "sort_key fst data"
  have fits: "fits32 ?ds"
  proof (rule ccontr)
    assume "\<not> fits32 ?ds"
    from write_records_not_fits[OF wf_bloom_init this, of h "[]" "[]"]
    obtain f' where "write_records h ?ds BloomFilter_init [] [] = Inl (StructError, f')" by blast
    then show False using assms by (simp add: SSTable_build_def)
  qed
  have w: "write_records h ?ds BloomFilter_init [] [] =
      Inr (built_bloom h data, record_offsets 0 ?ds, data_bytes ?ds)"
    using write_records_fits[OF wf_bloom_init fits, of h "[]" "[]"] by (simp add: built_bloom_def)
  have ser: "BloomFilter_serialize (built_bloom h data) =
      Inr (le_bytes 4 8192 @ le_bytes 4 4 @ bits (built_bloom h data))"
    by (simp add: BloomFilter_serialize_def built_bloom_params pack_I_def)
  let ?idx = "zip (map fst ?ds) (record_offsets 0 ?ds)"
  from assms obtain cnt index_data sz where
    p: "pack_I (length data) = Inr cnt"
       "index_entries ?idx cnt = Inr index_data"
       "pack_I (length index_data) = Inr sz"
       "sst = \<lparr>filename = fname, index = ?idx, bloom = Some (built_bloom h data)\<rparr>"
       "fs' = fs(fname \<mapsto> data_bytes ?ds @ index_data @ sz @ le_bytes 4 8192 @ le_bytes 4 4 @ bits (built_bloom h data))"
    unfolding SSTable_build_def Let_def w
    by (auto split: sum.splits simp: ser simp del: le_bytes.simps)
  have c: "cnt = le_bytes 4 (length data)" using p(1) by (auto simp: pack_I_def split: if_splits)
  have i: "index_data = index_region data"
    using index_entries_Inr[OF p(2)] c by (simp add: index_region_def table_index_def)
  have s: "sz = le_bytes 4 (length (index_region data))"
    using p(3) i by (auto simp: pack_I_def split: if_splits)
  show ?thesis using p(4,5) i s fits by (simp add: built_sst_def built_file_def table_index_def)
qed

text \<open>
  Claim C9. Every key stored in an SSTable is reported by the table's membership filter:
  when \<^verbatim>\<open>_build\<close> returns a handle for the records \<open>data\<close>, the handle has a filter and
  \<^verbatim>\<open>might_contain\<close> of any key of \<open>data\<close> returns \<^verbatim>\<open>True\<close> (it neither raises nor answers
  \<^verbatim>\<open>False\<close>), whatever the hash function is.
\<close>

theorem filter_soundness:
  assumes "SSTable_build h fs fname data = Inr (sst, fs')" and "key \<in> fst ` set data"
  shows "\<exists>bf. bloom sst = Some bf \<and> BloomFilter_might_contain h bf key = Inr True"
proof -
  have "sst = built_sst h fname data" using SSTable_build_Inr[OF assms(1)] by simp
  then show ?thesis using built_bloom_member[OF assms(2), of h] by simp
qed

theorem filter_soundness_witness:
  "\<exists>sst fs'. SSTable_build (\<lambda>_. 0) Map.empty ''l0_0.sst'' [(''apple'', ''red''), (''banana'', ''yellow'')] = Inr (sst, fs') \<and>
     ''banana'' \<in> fst ` set [(''apple'', ''red''), (''banana'', ''yellow'')] \<and>
     (\<exists>bf. bloom sst = Some bf \<and> BloomFilter_might_contain (\<lambda>_. 0) bf ''banana'' = Inr True)"
proof -
  let ?data = "[(''apple'', ''red''), (''banana'', ''yellow'')]"
  have b: "SSTable_build (\<lambda>_. 0) Map.empty ''l0_0.sst'' ?data =
      Inr (built_sst (\<lambda>_. 0) ''l0_0.sst'' ?data, [''l0_0.sst'' \<mapsto> built_file (\<lambda>_. 0) ?data])"
    by (rule SSTable_build_small) (simp add: small_data_def)
  have m: "''banana'' \<in> fst ` set ?data" by simp
  from filter_soundness[OF b m] b m show ?thesis by blast
qed

lemma str_nat_small: "n < 10 \<Longrightarrow> str_nat n = [digit_char n]"
  by (subst str_nat.simps) simp

section \<open>Oversized keys and values\<close>

lemma str_nat_digits:
  "str_nat 0 = ''0''" "str_nat (Suc 0) = ''1''" "str_nat 1 = ''1''" "str_nat 2 = ''2''"
  by (simp_all add: str_nat_small digit_char_def char_of_def bit_Suc bit_0)

lemma fits32_within: "fits32 recs = list_all within_limit recs"
  by (induction recs) (auto simp: fits32_def within_limit_def)

lemma write_records_oversized:
  "wf_bloom bf \<Longrightarrow> \<not> fits32 recs \<Longrightarrow>
   write_records h recs bf offs f = Inl (StructError, f @ data_bytes (takeWhile within_limit recs))"
proof (induction recs arbitrary: bf offs f)
  case Nil
  then show ?case by (simp add: fits32_def)
next
  case (Cons kv recs)
  obtain k v where kv: "kv = (k, v)" by (cases kv)
  from BloomFilter_add_wf[OF Cons.prems(1), of h k] obtain bf' where
    a: "BloomFilter_add h bf k = Inr bf'" "wf_bloom bf'"
    by blast
  show ?case
  proof (cases "within_limit kv")
    case True
    then have "\<not> fits32 recs" using Cons.prems(2) by (simp add: fits32_within)
    from Cons.IH[OF a(2) this] show ?thesis using a(1) True kv
      by (simp add: pack_I_def within_limit_def record_bytes_def)
  next
    case False
    then show ?thesis using a(1) kv by (auto simp: pack_I_def within_limit_def)
  qed
qed

lemma SSTable_build_oversized:
  assumes "\<not> fits32 data"
  shows "SSTable_build h fs fname data =
     Inl (StructError, fs(fname \<mapsto> data_bytes (takeWhile within_limit (sort_key fst data))))"
proof -
  have "\<not> fits32 (sort_key fst data)"
    using assms by (simp add: fits32_within list_all_iff)
  from write_records_oversized[OF wf_bloom_init this, of h "[]" "[]"]
  show ?thesis by (simp add: SSTable_build_def)
qed

lemma update_member: "(k, v) \<in> set (AList.update k v al)"
  by (induction al) auto

lemma update_not_Nil: "AList.update k v al \<noteq> []"
  by (cases al) auto

lemma oversized_not_fits:
  "2 ^ 32 \<le> length key \<or> 2 ^ 32 \<le> length value \<Longrightarrow> \<not> fits32 (AList.update key value al)"
proof -
  assume "2 ^ 32 \<le> length key \<or> 2 ^ 32 \<le> length value"
  then have "\<not> within_limit (key, value)" by (auto simp: within_limit_def)
  then show ?thesis using update_member[of key "value" al]
    unfolding fits32_within list_all_iff by blast
qed

text \<open>
  Claim C7, as amended. \<^verbatim>\<open>put\<close> does not check lengths. It stores any key and value in the
  memtable and returns normally when the memtable stays below \<^verbatim>\<open>memtable_limit\<close>. When the
  put fills the memtable and the key or the value is longer than \<open>2\<^sup>3\<^sup>2 - 1\<close> bytes, the
  flush raises \<^verbatim>\<open>struct.error\<close> (the program has no Overflow error) at that record's length
  prefix: the record stays in the memtable, no table is appended to level 0, and the file
  left behind holds only the records sorted before the first oversized one. Records whose
  key and value are within the limit pass the record loop of \<^verbatim>\<open>_build\<close> without a raise.
\<close>

theorem put_does_not_check_lengths:
  "(int (length (AList.update key value (memtable t))) < memtable_limit t \<longrightarrow>
      LSMTree_put h fs t key value = Inr (t\<lparr>memtable := AList.update key value (memtable t)\<rparr>, fs)) \<and>
   (memtable_limit t \<le> int (length (AList.update key value (memtable t))) \<and>
    (2 ^ 32 \<le> length key \<or> 2 ^ 32 \<le> length value) \<longrightarrow>
      LSMTree_put h fs t key value =
        Inl (StructError,
             t\<lparr>memtable := AList.update key value (memtable t),
               levels := (if levels t = [] then [[]] else levels t)\<rparr>,
             fs(''l0_'' @ str_nat (length (hd (if levels t = [] then [[]] else levels t))) @ ''.sst'' \<mapsto>
                data_bytes (takeWhile within_limit (sort_key fst (AList.update key value (memtable t))))))) \<and>
   (list_all within_limit recs \<longrightarrow>
      (\<exists>bf offsets f. write_records h recs BloomFilter_init [] [] = Inr (bf, offsets, f)))"
proof (intro conjI impI)
  assume "int (length (AList.update key value (memtable t))) < memtable_limit t"
  then show "LSMTree_put h fs t key value = Inr (t\<lparr>memtable := AList.update key value (memtable t)\<rparr>, fs)"
    by (simp add: LSMTree_put_def)
next
  assume a: "memtable_limit t \<le> int (length (AList.update key value (memtable t))) \<and>
    (2 ^ 32 \<le> length key \<or> 2 ^ 32 \<le> length value)"
  then have nf: "\<not> fits32 (AList.update key value (memtable t))" by (simp add: oversized_not_fits)
  show "LSMTree_put h fs t key value =
        Inl (StructError,
             t\<lparr>memtable := AList.update key value (memtable t),
               levels := (if levels t = [] then [[]] else levels t)\<rparr>,
             fs(''l0_'' @ str_nat (length (hd (if levels t = [] then [[]] else levels t))) @ ''.sst'' \<mapsto>
                data_bytes (takeWhile within_limit (sort_key fst (AList.update key value (memtable t))))))"
    using a
    by (simp add: LSMTree_put_def LSMTree_flush_memtable_def update_not_Nil SSTable_init_def
        SSTable_build_oversized[OF nf] Let_def)
next
  assume "list_all within_limit recs"
  then have "fits32 recs" by (simp add: fits32_within)
  from write_records_fits[OF wf_bloom_init this, of h "[]" "[]"]
  show "\<exists>bf offsets f. write_records h recs BloomFilter_init [] [] = Inr (bf, offsets, f)" by simp
qed

theorem put_does_not_check_lengths_witness:
  "LSMTree_put (\<lambda>_. 0) Map.empty (LSMTree_init 100) (replicate (2 ^ 32) CHR ''k'') ''v'' =
     Inr (\<lparr>memtable = [(replicate (2 ^ 32) CHR ''k'', ''v'')], memtable_limit = 100, levels = []\<rparr>,
          Map.empty) \<and>
   LSMTree_put (\<lambda>_. 0) Map.empty (LSMTree_init 1) (replicate (2 ^ 32) CHR ''k'') ''v'' =
     Inl (StructError,
          \<lparr>memtable = [(replicate (2 ^ 32) CHR ''k'', ''v'')], memtable_limit = 1, levels = [[]]\<rparr>,
          [''l0_0.sst'' \<mapsto> []]) \<and>
   (\<exists>bf offsets f.
      write_records (\<lambda>_. 0) [(''apple'', ''red'')] BloomFilter_init [] [] = Inr (bf, offsets, f))"
proof -
  let ?k = "replicate (2 ^ 32) CHR ''k''"
  note th = put_does_not_check_lengths
  have a: "LSMTree_put (\<lambda>_. 0) Map.empty (LSMTree_init 100) ?k ''v'' =
     Inr (\<lparr>memtable = [(?k, ''v'')], memtable_limit = 100, levels = []\<rparr>, Map.empty)"
    using th[of ?k "''v''" "LSMTree_init 100" "\<lambda>_. 0" Map.empty "[]"]
    by (simp add: LSMTree_init_def)
  have b: "LSMTree_put (\<lambda>_. 0) Map.empty (LSMTree_init 1) ?k ''v'' =
     Inl (StructError, \<lparr>memtable = [(?k, ''v'')], memtable_limit = 1, levels = [[]]\<rparr>,
          [''l0_0.sst'' \<mapsto> []])"
    using th[of ?k "''v''" "LSMTree_init 1" "\<lambda>_. 0" Map.empty "[]"]
    by (simp add: LSMTree_init_def within_limit_def str_nat_digits)
  have c: "\<exists>bf offsets f.
      write_records (\<lambda>_. 0) [(''apple'', ''red'')] BloomFilter_init [] [] = Inr (bf, offsets, f)"
    using th[of "''k''" "''v''" "LSMTree_init 1" "\<lambda>_. 0" Map.empty "[(''apple'', ''red'')]"]
    by (simp add: within_limit_def)
  from a b c show ?thesis by blast
qed

text \<open>
  Claim C7 as stated fails: a \<^verbatim>\<open>put\<close> of a key of \<open>2\<^sup>3\<^sup>2\<close> bytes into an empty tree with the
  default limit of 100 entries returns normally, the key in the memtable.
\<close>

theorem put_accepts_oversized_key:
  "length (replicate (2 ^ 32) CHR ''k'') = 2 ^ 32 \<and>
   LSMTree_put (\<lambda>_. 0) Map.empty (LSMTree_init 100) (replicate (2 ^ 32) CHR ''k'') ''v'' =
     Inr (\<lparr>memtable = [(replicate (2 ^ 32) CHR ''k'', ''v'')], memtable_limit = 100, levels = []\<rparr>,
          Map.empty)"
  by (simp add: LSMTree_put_def LSMTree_init_def)

section \<open>Runs of the tree on concrete inputs\<close>

text \<open>With the closed form of a build and the lookups on built tables as rewrite rules, a run
  of the tree on concrete keys and values is computed by the simplifier, for every hash
  function.\<close>

lemma SSTable_range_built_window:
  "SSTable_range h fs (built_sst h fname data) s e =
     range_loop h fs (built_sst h fname data)
       (filter (\<lambda>k. s \<le> k \<and> k \<le> e) (map fst (sort_key fst data))) []"
  unfolding SSTable_range_def Let_def built_sst_sel keys_table_index
  by (simp add: sorted_window[OF sorted_keys_sort])

lemma str_nat_two: "str_nat (Suc (Suc 0)) = ''2''"
  using str_nat_digits(4) by (simp add: numeral_2_eq_2)

lemmas run_simps =
  LSMTree_put_def LSMTree_flush_memtable_def LSMTree_compact_level_def LSMTree_get_def
  LSMTree_range_def LSMTree_init_def SSTable_init_def SSTable_cleanup_def SSTable_size_bytes_def
  SSTable_build_small SSTable_get_built SSTable_get_built_missing SSTable_range_built
  SSTable_range_built_window small_data_def str_nat_digits str_nat_two Let_def

subsection \<open>Compaction: which level wins\<close>

text \<open>
  Claim C1 says that in \<^verbatim>\<open>compact(L)\<close> a record of level \<open>L\<close> overrides a record of level
  \<open>L + 1\<close> with the same key. The program gathers level \<open>L\<close> first and level \<open>L + 1\<close>
  second into the same dictionary, so the older level overwrites the newer one. The run:
  with \<^verbatim>\<open>memtable_limit = 1\<close> every put is flushed; after five puts level 0 holds two
  tables, the first with \<open>x \<mapsto> new\<close>, and level 1 one table with \<open>x \<mapsto> old\<close>;
  \<^verbatim>\<open>_compact_level(0)\<close> then writes a single table at level 1 that holds \<open>x \<mapsto> old\<close>.
\<close>

theorem compaction_lets_older_level_win:
  "\<exists>t fs t' fs' sst.
     run_puts h Map.empty (LSMTree_init 1)
       [(''x'', ''old''), (''a'', ''1''), (''b'', ''2''), (''x'', ''new''), (''c'', ''3'')] = Inr (t, fs) \<and>
     map length (levels t) = [2, 1] \<and>
     SSTable_get h fs (levels t ! 0 ! 0) ''x'' = Inr (Some ''new'') \<and>
     SSTable_get h fs (levels t ! 1 ! 0) ''x'' = Inr (Some ''old'') \<and>
     LSMTree_compact_level h fs t 0 = Inr (t', fs') \<and>
     levels t' = [[], [sst]] \<and>
     SSTable_range h fs' sst [] ''~'' =
       Inr [(''a'', ''1''), (''b'', ''2''), (''c'', ''3''), (''x'', ''old'')]"
  by (simp add: run_simps)

subsection \<open>Overwriting a key\<close>

text \<open>
  Claim C2 says that after \<^verbatim>\<open>put(K, V1); put(K, V2)\<close> both \<^verbatim>\<open>get(K)\<close> and a range over \<open>K\<close>
  give \<open>V2\<close>. Two runs show each half failing. With \<^verbatim>\<open>memtable_limit = 1\<close> the two puts
  are flushed into two level-0 tables and \<^verbatim>\<open>get\<close> returns the value of the first one. With
  \<^verbatim>\<open>memtable_limit = 2\<close> the second value is still in the memtable when the first is in a
  table: \<^verbatim>\<open>get\<close> answers from the memtable, but \<^verbatim>\<open>range\<close> lets the table overwrite the
  memtable's pair.
\<close>

theorem overwrite_not_observed:
  "(\<exists>t fs. run_puts h Map.empty (LSMTree_init 1) [(''x'', ''old''), (''x'', ''new'')] = Inr (t, fs) \<and>
      LSMTree_get h fs t ''x'' = Inr (Some ''old'')) \<and>
   (\<exists>t fs. run_puts h Map.empty (LSMTree_init 2)
        [(''x'', ''old''), (''y'', ''1''), (''x'', ''new'')] = Inr (t, fs) \<and>
      memtable t = [(''x'', ''new'')] \<and>
      LSMTree_get h fs t ''x'' = Inr (Some ''new'') \<and>
      LSMTree_range h fs t ''x'' ''x'' = Inr [(''x'', ''old'')])"
  by (simp add: run_simps)

subsection \<open>A key put once\<close>

text \<open>
  Claim C3 says that a key put once is read back with its value whatever flushes and
  compactions happen in between. \<^verbatim>\<open>_compact_level\<close> gathers the records of a table with
  \<^verbatim>\<open>sst.range("", "~")\<close>, which leaves out every key that sorts after \<^verbatim>\<open>"~"\<close>. The run: with
  \<^verbatim>\<open>memtable_limit = 1\<close>, the key \<^verbatim>\<open>"~a"\<close> is put once and read back after the second put;
  the third put triggers the compaction of level 0, and the key is gone.
\<close>

theorem key_above_tilde_lost_after_puts:
  "\<exists>t fs t' fs'.
     run_puts h Map.empty (LSMTree_init 1) [(''~a'', ''v''), (''b'', ''1'')] = Inr (t, fs) \<and>
     LSMTree_get h fs t ''~a'' = Inr (Some ''v'') \<and>
     run_puts h fs t [(''c'', ''2'')] = Inr (t', fs') \<and>
     LSMTree_get h fs' t' ''~a'' = Inr None \<and>
     LSMTree_get h fs' t' ''b'' = Inr (Some ''1'')"
  by (simp add: run_simps)

subsection \<open>The order in which get scans level 0\<close>

text \<open>
  Claim C4 says that \<^verbatim>\<open>get\<close> scans level 0 from the newest table to the oldest. The loop is
  \<^verbatim>\<open>for sst in self.levels[i]\<close>, oldest first. The run: with \<^verbatim>\<open>memtable_limit = 1\<close> two puts
  of the same key give two level-0 tables; \<^verbatim>\<open>get\<close> returns the value of the table at
  index 0, while \<^verbatim>\<open>range\<close>, which assigns in list order, returns the value of the table at
  index 1.
\<close>

theorem get_returns_oldest_level0_value:
  "\<exists>t fs. run_puts h Map.empty (LSMTree_init 1) [(''x'', ''old''), (''x'', ''new'')] = Inr (t, fs) \<and>
     map length (levels t) = [2] \<and>
     SSTable_get h fs (levels t ! 0 ! 0) ''x'' = Inr (Some ''old'') \<and>
     SSTable_get h fs (levels t ! 0 ! 1) ''x'' = Inr (Some ''new'') \<and>
     LSMTree_get h fs t ''x'' = Inr (Some ''old'') \<and>
     LSMTree_range h fs t ''x'' ''x'' = Inr [(''x'', ''new'')]"
  by (simp add: run_simps)

subsection \<open>Keys reachable after a compaction\<close>

text \<open>
  Claim C5 says that no key of level \<open>L\<close> or \<open>L + 1\<close> becomes unreachable by \<^verbatim>\<open>compact(L)\<close>.
  The run: level 0 holds the keys \<^verbatim>\<open>"b"\<close> and \<^verbatim>\<open>"~a"\<close>, both returned by a range scan;
  after \<^verbatim>\<open>_compact_level(0)\<close> only \<^verbatim>\<open>"b"\<close> is left, because the scan \<^verbatim>\<open>range("", "~")\<close> that
  gathers the records stops before \<^verbatim>\<open>"~a"\<close>.
\<close>

theorem compaction_drops_key_above_tilde:
  "\<exists>t fs t' fs'.
     run_puts h Map.empty (LSMTree_init 1) [(''b'', ''1''), (''~a'', ''v'')] = Inr (t, fs) \<and>
     LSMTree_range h fs t [] ''~~'' = Inr [(''b'', ''1''), (''~a'', ''v'')] \<and>
     LSMTree_compact_level h fs t 0 = Inr (t', fs') \<and>
     LSMTree_range h fs' t' [] ''~~'' = Inr [(''b'', ''1'')] \<and>
     LSMTree_get h fs' t' ''~a'' = Inr None"
  by (simp add: run_simps)

subsection \<open>Reading a table after cleanup\<close>

text \<open>
  Claim C6 says that after \<^verbatim>\<open>cleanup\<close> every read on the handle treats the table as empty
  and none fails. \<^verbatim>\<open>cleanup\<close> removes the file and leaves the handle's index and filter as
  they were, so \<^verbatim>\<open>get\<close> of a stored key passes the filter and the index and then opens a
  file that is not there. Only a key that is not stored, and \<^verbatim>\<open>size_bytes\<close>, behave as the
  claim says.
\<close>

theorem reads_after_cleanup_raise:
  "\<exists>sst fs.
     SSTable_init h Map.empty ''l0_0.sst'' (Some [(''a'', ''1'')]) = Inr (sst, fs) \<and>
     SSTable_get h fs sst ''a'' = Inr (Some ''1'') \<and>
     SSTable_get h (SSTable_cleanup sst fs) sst ''a'' = Inl FileNotFoundError \<and>
     SSTable_range h (SSTable_cleanup sst fs) sst ''a'' ''a'' = Inl FileNotFoundError \<and>
     SSTable_get h (SSTable_cleanup sst fs) sst ''b'' = Inr None \<and>
     SSTable_size_bytes (SSTable_cleanup sst fs) sst = 0"
  by (simp add: run_simps)

section \<open>Reopening a table from its file\<close>

lemma bit_at_init: "bit_at (bits BloomFilter_init) q = False"
  by (simp add: bit_at_def BloomFilter_init_def)

lemma built_bloom_bit:
  "bit_at (bits (built_bloom h data)) q =
     (\<exists>k \<in> fst ` set data. q \<in> hash_pos h 8192 k ` {0..<4})"
proof -
  have "\<forall>q. bit_at (bits (built_bloom h data)) q =
      (bit_at (bits BloomFilter_init) q \<or>
       (\<exists>k \<in> fst ` set (sort_key fst data). q \<in> hash_pos h (size_bf BloomFilter_init) k ` {0..<num_hashes BloomFilter_init}))"
    unfolding built_bloom_def using add_keys_wf[OF wf_bloom_init, of h "sort_key fst data"] by blast
  then show ?thesis by (simp add: bit_at_init) (simp add: BloomFilter_init_def)
qed

lemma built_bloom_tail_zero:
  assumes "\<And>k i. k \<in> fst ` set data \<Longrightarrow> i < 4 \<Longrightarrow> hash_pos h 8192 k i < 8160"
  shows "drop 1020 (bits (built_bloom h data)) = replicate 4 0"
proof (rule nth_equalityI)
  show "length (drop 1020 (bits (built_bloom h data))) = length (replicate 4 (0::byte))"
    by (simp add: built_bloom_params)
next
  fix j assume "j < length (drop 1020 (bits (built_bloom h data)))"
  then have j: "j < 4" by (simp add: built_bloom_params)
  let ?b = "bits (built_bloom h data) ! (1020 + j)"
  have "?b = 0"
  proof (rule bit_eqI)
    fix n assume "possible_bit TYPE(byte) n"
    then have n: "n < 8" by (simp add: possible_bit_def)
    define q where "q = 8 * (1020 + j) + n"
    have e: "q div 8 = 1020 + j" "q mod 8 = n" "8160 \<le> q"
      using n unfolding q_def by presburger+
    have "bit ?b n = bit_at (bits (built_bloom h data)) q"
      unfolding bit_at_def e using j by (simp add: built_bloom_params)
    also have "\<dots> = False"
      unfolding built_bloom_bit using assms e(3) by fastforce
    finally show "bit ?b n = bit (0::byte) n" by simp
  qed
  then show "drop 1020 (bits (built_bloom h data)) ! j = replicate 4 0 ! j"
    using j by (simp add: built_bloom_params)
qed

lemma SSTable_load_tail_zero:
  assumes "4 \<le> length f" "drop (length f - 4) f = replicate 4 0"
  shows "SSTable_load (fs(fname \<mapsto> f)) fname = Inr \<lparr>filename = fname, index = [], bloom = None\<rparr>"
proof -
  have t: "take 4 (drop (length f - 4) f) = replicate 4 0" using assms by simp
  have u: "unpack_I (replicate 4 0) = Inr 0"
    by (simp add: unpack_I_def numeral_eq_Suc)
  show ?thesis using assms(1) by (simp add: SSTable_load_def t u)
qed

lemma built_file_tail:
  "drop (length (built_file h data) - 4) (built_file h data) = drop 1020 (bits (built_bloom h data))"
  by (simp add: built_file_def built_bloom_params del: le_bytes.simps)

lemma reopen_loses_index:
  assumes "\<And>k i. k \<in> fst ` set data \<Longrightarrow> i < 4 \<Longrightarrow> hash_pos h 8192 k i < 8160"
  shows "SSTable_load (fs(fname \<mapsto> built_file h data)) fname =
     Inr \<lparr>filename = fname, index = [], bloom = None\<rparr>"
proof (rule SSTable_load_tail_zero)
  show "4 \<le> length (built_file h data)" by (simp add: built_file_def built_bloom_params)
  show "drop (length (built_file h data) - 4) (built_file h data) = replicate 4 0"
    unfolding built_file_tail using assms by (rule built_bloom_tail_zero)
qed

lemma bisect_Nil [simp]: "bisect_left [] x = 0" "bisect_right [] x = 0"
  unfolding bisect_left_def bisect_right_def
  by (subst bisect_left_loop.simps, simp) (subst bisect_right_loop.simps, simp)

lemma SSTable_range_empty_index: "index sst = [] \<Longrightarrow> SSTable_range h fs sst s e = Inr []"
  by (simp add: SSTable_range_def)

text \<open>
  Claim C8 says that a table written by \<^verbatim>\<open>_build\<close> and reopened by \<^verbatim>\<open>_load\<close> gives back its
  records. \<^verbatim>\<open>_build\<close> ends the file with the serialized filter, after the four bytes of the
  index size; \<^verbatim>\<open>_load\<close> reads the index size from the last four bytes of the file, which
  are the last 32 bits of the filter. When no key sets one of these bits
  (\<open>reopen_loses_index\<close>), the size read is 0, the count read at the same place is 0, and
  nothing is left for the filter: the reopened handle has no index and no filter. The
  run takes a hash function that maps every string to 0.
\<close>

theorem reopened_table_is_empty:
  "\<exists>sst fs sst'.
     SSTable_init (\<lambda>_. 0) Map.empty ''t.sst'' (Some [(''a'', ''1'')]) = Inr (sst, fs) \<and>
     SSTable_range (\<lambda>_. 0) fs sst ''a'' ''a'' = Inr [(''a'', ''1'')] \<and>
     SSTable_init (\<lambda>_. 0) fs ''t.sst'' None = Inr (sst', fs) \<and>
     index sst' = [] \<and> bloom sst' = None \<and>
     SSTable_range (\<lambda>_. 0) fs sst' ''a'' ''a'' = Inr []"
proof -
  have l: "SSTable_load [''t.sst'' \<mapsto> built_file (\<lambda>_. 0) [(''a'', ''1'')]] ''t.sst'' =
      Inr \<lparr>filename = ''t.sst'', index = [], bloom = None\<rparr>"
    by (rule reopen_loses_index[where fs = Map.empty]) (simp add: hash_pos_def)
  show ?thesis
    by (simp add: SSTable_init_def SSTable_build_small small_data_def SSTable_range_built l
        SSTable_range_empty_index)
qed

end
